theory Spec2Isabelle
  imports Complex_Main "HOL-Library.Word" "HOL-Library.Multiset"
begin

section \<open>Data model\<close>

subsection \<open>Scalars\<close>

text \<open>
  \<^verbatim>\<open>LatencyScore\<close> and \<^verbatim>\<open>minLS\<close> are Go \<^verbatim>\<open>float64\<close> values. The selector never does
  arithmetic on them, it only compares them with \<^verbatim>\<open><\<close> and \<^verbatim>\<open>>\<close>, so a value is modelled
  by what a comparison can see of it: not-a-number, the two infinities, or a finite value
  (a rational; \<^verbatim>\<open>-0\<close> and \<^verbatim>\<open>+0\<close> compare equal and are both \<open>Fin 0\<close>).
\<close>

datatype float64 = NaN | NegInf | Fin rat | PosInf

text \<open>Go's \<^verbatim>\<open>a < b\<close> on \<^verbatim>\<open>float64\<close>: false as soon as one side is NaN.\<close>

fun f64_lt :: "float64 \<Rightarrow> float64 \<Rightarrow> bool" where
  "f64_lt NaN b = False"
| "f64_lt a NaN = False"
| "f64_lt NegInf NegInf = False"
| "f64_lt NegInf b = True"
| "f64_lt (Fin x) NegInf = False"
| "f64_lt (Fin x) (Fin y) = (x < y)"
| "f64_lt (Fin x) PosInf = True"
| "f64_lt PosInf b = False"

text \<open>Go's \<^verbatim>\<open>a > b\<close> and \<^verbatim>\<open>a <= b\<close>.\<close>

definition f64_gt :: "float64 \<Rightarrow> float64 \<Rightarrow> bool" where
  "f64_gt a b = f64_lt b a"

definition f64_le :: "float64 \<Rightarrow> float64 \<Rightarrow> bool" where
  "f64_le a b = (a \<noteq> NaN \<and> b \<noteq> NaN \<and> \<not> f64_lt b a)"

type_synonym int64 = "64 word"

type_synonym Address = "8 word list"

text \<open>
  \<^verbatim>\<open>ethcommon.BytesToAddress\<close> (go-ethereum): the 20-byte address holding the bytes
  right-aligned; a longer input keeps its last 20 bytes.
\<close>

definition AddressLength :: nat where
  "AddressLength = 20"

definition BytesToAddress :: "8 word list \<Rightarrow> Address" where
  "BytesToAddress b =
     (let b' = (if length b > AddressLength then drop (length b - AddressLength) b else b)
      in replicate (AddressLength - length b') 0 @ b')"

subsection \<open>Sessions\<close>

text \<open>
  Modelled from the spec: the declaration of \<^verbatim>\<open>BroadcastSession\<close> is not among the
  sources. The selectors read two things of a session: its \<^verbatim>\<open>LatencyScore\<close> and the bytes
  \<^verbatim>\<open>OrchestratorInfo.TicketParams.Recipient\<close> from which the stake address is derived.
  The selectors hold pointers, so a session also carries the identity of its pointer
  (\<open>ptr\<close>): two sessions with equal fields are still two sessions. Sessions are non-nil and
  are not mutated while a selector holds them.
\<close>

record BroadcastSession =
  ptr :: nat
  LatencyScore :: float64
  Recipient :: "8 word list"

datatype panic = IndexOutOfRange

section \<open>sessHeap\<close>

type_synonym sessHeap = "BroadcastSession list"

definition Len :: "sessHeap \<Rightarrow> nat" where
  "Len h = length h"

definition Less :: "sessHeap \<Rightarrow> nat \<Rightarrow> nat \<Rightarrow> bool" where
  "Less h i j = f64_lt (LatencyScore (h ! i)) (LatencyScore (h ! j))"

text \<open>\<^verbatim>\<open>h[i], h[j] = h[j], h[i]\<close>: both right-hand sides are read before the writes.\<close>

definition Swap :: "sessHeap \<Rightarrow> nat \<Rightarrow> nat \<Rightarrow> sessHeap" where
  "Swap h i j = h[i := h ! j, j := h ! i]"

definition sessHeap_Push :: "sessHeap \<Rightarrow> BroadcastSession \<Rightarrow> sessHeap" where
  "sessHeap_Push h sess = h @ [sess]"

text \<open>The method \<^verbatim>\<open>Pop\<close>: the last element; \<^verbatim>\<open>old[n-1]\<close> panics on an empty heap.\<close>

definition sessHeap_Pop :: "sessHeap \<Rightarrow> panic + (BroadcastSession \<times> sessHeap)" where
  "sessHeap_Pop old =
     (let n = length old
      in if n = 0 then Inl IndexOutOfRange
         else Inr (old ! (n - 1), take (n - 1) old))"

definition Peek :: "sessHeap \<Rightarrow> BroadcastSession option" where
  "Peek h = (if Len h = 0 then None else Some (h ! 0))"

subsection \<open>The standard library's container/heap over a sessHeap\<close>

text \<open>
  \<^verbatim>\<open>heap.up\<close>: \<^verbatim>\<open>for { i := (j - 1) / 2; if i == j || !h.Less(j, i) { break };
  h.Swap(i, j); j = i }\<close>. Go's division truncates towards zero, so at \<open>j = 0\<close> the parent is
  \<open>(-1) / 2 = 0\<close>; subtraction on \<open>nat\<close> gives the same \<open>0\<close>.
\<close>

function up :: "sessHeap \<Rightarrow> nat \<Rightarrow> sessHeap" where
  "up h j =
     (let i = (j - 1) div 2
      in if i = j \<or> \<not> Less h j i then h else up (Swap h i j) i)"
  by pat_completeness auto
termination
  by (relation "measure (\<lambda>(h, j). j)") auto

text \<open>
  \<^verbatim>\<open>heap.down\<close>: the smaller child \<open>j\<close> of \<open>i\<close> below \<open>n\<close> moves up while it is less than
  its parent. The Go function also reports whether anything moved; \<^verbatim>\<open>heap.Pop\<close> and
  \<^verbatim>\<open>heap.Init\<close> drop that result, and so does the model. (The guard \<^verbatim>\<open>j1 < 0\<close> of the
  source catches an overflow of \<^verbatim>\<open>2*i + 1\<close>, which no slice length reaches.)
\<close>

function down :: "sessHeap \<Rightarrow> nat \<Rightarrow> nat \<Rightarrow> sessHeap" where
  "down h i n =
     (let j1 = 2 * i + 1
      in if j1 \<ge> n then h
         else let j = (if j1 + 1 < n \<and> Less h (j1 + 1) j1 then j1 + 1 else j1)
              in if \<not> Less h j i then h else down (Swap h i j) j n)"
  by pat_completeness auto
termination
  by (relation "measure (\<lambda>(h, i, n). n - i)") auto

text \<open>\<^verbatim>\<open>heap.Init\<close>: \<^verbatim>\<open>for i := n/2 - 1; i >= 0; i-- { down(h, i, n) }\<close>.\<close>

definition heap_Init :: "sessHeap \<Rightarrow> sessHeap" where
  "heap_Init h = (let n = Len h in fold (\<lambda>i h'. down h' i n) (rev [0..<n div 2]) h)"

text \<open>\<^verbatim>\<open>heap.Push\<close>: \<^verbatim>\<open>h.Push(x); up(h, h.Len()-1)\<close>.\<close>

definition heap_Push :: "sessHeap \<Rightarrow> BroadcastSession \<Rightarrow> sessHeap" where
  "heap_Push h x = (let h' = sessHeap_Push h x in up h' (Len h' - 1))"

text \<open>
  \<^verbatim>\<open>heap.Pop\<close>: \<^verbatim>\<open>n := h.Len() - 1; h.Swap(0, n); down(h, 0, n); return h.Pop()\<close>.
  On an empty heap \<open>n = -1\<close> and the swap panics.
\<close>

definition heap_Pop :: "sessHeap \<Rightarrow> panic + (BroadcastSession \<times> sessHeap)" where
  "heap_Pop h =
     (if Len h = 0 then Inl IndexOutOfRange
      else let n = Len h - 1 in sessHeap_Pop (down (Swap h 0 n) 0 n))"

section \<open>MinLSSelector\<close>

text \<open>
  The result of \<^verbatim>\<open>stakeReader.Stakes\<close> is a Go map, given here by its entries; a key that
  is absent reads as stake 0. \<open>Inl\<close> is a non-nil error.
\<close>

type_synonym stakeMap = "(Address \<times> int64) list"

text \<open>
  What a call of \<^verbatim>\<open>Select\<close> gets from outside the selector: the answer of the configured
  stake reader to a query, and the value \<^verbatim>\<open>rand.Int63n\<close> draws for a bound.
\<close>

record env =
  Stakes :: "Address list \<Rightarrow> string + stakeMap"
  Int63n :: "int64 \<Rightarrow> int64"

text \<open>\<open>stakeRdr\<close> is \<open>True\<close> when the field \<^verbatim>\<open>stakeRdr\<close> is not nil.\<close>

record MinLSSelector =
  unknownSessions :: "BroadcastSession list"
  knownSessions :: sessHeap
  stakeRdr :: bool
  minLS :: float64

text \<open>
  The result of a selection: the session returned (\<open>None\<close> is nil), the selector after the
  call, and the arguments of the calls of \<^verbatim>\<open>Stakes\<close> made during the call, in order.
\<close>

type_synonym outcome = "BroadcastSession option \<times> MinLSSelector \<times> Address list list"

definition NewMinLSSelector :: "bool \<Rightarrow> float64 \<Rightarrow> MinLSSelector" where
  "NewMinLSSelector rdr m =
     \<lparr>unknownSessions = [], knownSessions = heap_Init [], stakeRdr = rdr, minLS = m\<rparr>"

definition MinLSSelector_Add :: "BroadcastSession list \<Rightarrow> MinLSSelector \<Rightarrow> MinLSSelector" where
  "MinLSSelector_Add sessions s = s\<lparr>unknownSessions := unknownSessions s @ sessions\<rparr>"

definition MinLSSelector_Complete :: "BroadcastSession \<Rightarrow> MinLSSelector \<Rightarrow> MinLSSelector" where
  "MinLSSelector_Complete sess s = s\<lparr>knownSessions := heap_Push (knownSessions s) sess\<rparr>"

definition MinLSSelector_Size :: "MinLSSelector \<Rightarrow> nat" where
  "MinLSSelector_Size s = length (unknownSessions s) + Len (knownSessions s)"

definition MinLSSelector_Clear :: "MinLSSelector \<Rightarrow> MinLSSelector" where
  "MinLSSelector_Clear s = s\<lparr>unknownSessions := [], knownSessions := [], stakeRdr := False\<rparr>"

definition stake_of :: "stakeMap \<Rightarrow> Address \<Rightarrow> int64" where
  "stake_of stakes a = (case map_of stakes a of None \<Rightarrow> 0 | Some v \<Rightarrow> v)"

text \<open>
  The selection loop over \<^verbatim>\<open>unknownSessions\<close>: \<^verbatim>\<open>r -= stakes[addrs[i]]\<close>, and the first
  index \<open>i\<close> at which \<^verbatim>\<open>r <= 0\<close> (a signed comparison of the wrapped \<^verbatim>\<open>int64\<close>) wins.
  The first argument is the rest of \<^verbatim>\<open>addrs\<close> from index \<open>i\<close> on.
\<close>

fun pick :: "stakeMap \<Rightarrow> Address list \<Rightarrow> int64 \<Rightarrow> nat \<Rightarrow> nat option" where
  "pick stakes [] r i = None"
| "pick stakes (a # as) r i =
     (let r' = r - stake_of stakes a
      in if sint r' \<le> 0 then Some i else pick stakes as r' (Suc i))"

definition selectUnknownSession :: "env \<Rightarrow> MinLSSelector \<Rightarrow> outcome" where
  "selectUnknownSession e s =
     (let u = unknownSessions s
      in if length u = 0 then (None, s, [])
         else if \<not> stakeRdr s then (Some (u ! 0), s\<lparr>unknownSessions := drop 1 u\<rparr>, [])
         else
           let addrs = map (\<lambda>sess. BytesToAddress (Recipient sess)) u
           in case Stakes e addrs of
                Inl err \<Rightarrow> (None, s, [addrs])
              | Inr stakes \<Rightarrow>
                  let totalStake = sum_list (map snd stakes);
                      r = (if 0 < sint totalStake then Int63n e totalStake else 0)
                  in case pick stakes addrs r 0 of
                       None \<Rightarrow> (None, s, [addrs])
                     | Some i \<Rightarrow>
                         let n = length u
                         in (Some (u ! i),
                             s\<lparr>unknownSessions := take (n - 1) (u[n - 1 := u ! i, i := u ! (n - 1)])\<rparr>,
                             [addrs]))"

definition MinLSSelector_Select :: "env \<Rightarrow> MinLSSelector \<Rightarrow> panic + outcome" where
  "MinLSSelector_Select e s =
     (case Peek (knownSessions s) of
        None \<Rightarrow> Inr (selectUnknownSession e s)
      | Some minSess \<Rightarrow>
          if f64_gt (LatencyScore minSess) (minLS s) \<and> length (unknownSessions s) > 0
          then Inr (selectUnknownSession e s)
          else (case heap_Pop (knownSessions s) of
                  Inl p \<Rightarrow> Inl p
                | Inr (sess, h') \<Rightarrow> Inr (Some sess, s\<lparr>knownSessions := h'\<rparr>, [])))"

section \<open>LIFOSelector\<close>

type_synonym LIFOSelector = "BroadcastSession list"

definition LIFOSelector_Add :: "BroadcastSession list \<Rightarrow> LIFOSelector \<Rightarrow> LIFOSelector" where
  "LIFOSelector_Add sessions s = sessions @ s"

definition LIFOSelector_Complete :: "BroadcastSession \<Rightarrow> LIFOSelector \<Rightarrow> LIFOSelector" where
  "LIFOSelector_Complete sess s = s @ [sess]"

text \<open>\<^verbatim>\<open>sessList[last]\<close> with \<open>last = -1\<close> panics on an empty selector.\<close>

definition LIFOSelector_Select :: "LIFOSelector \<Rightarrow> panic + (BroadcastSession \<times> LIFOSelector)" where
  "LIFOSelector_Select s =
     (if length s = 0 then Inl IndexOutOfRange
      else let last = length s - 1 in Inr (s ! last, take last s))"

definition LIFOSelector_Size :: "LIFOSelector \<Rightarrow> nat" where
  "LIFOSelector_Size s = length s"

definition LIFOSelector_Clear :: "LIFOSelector \<Rightarrow> LIFOSelector" where
  "LIFOSelector_Clear s = []"

section \<open>Runs of a MinLSSelector\<close>

text \<open>
  A caller's run is a list of calls; \<open>OpSelect\<close> carries what the outside world answers
  during that call. \<open>run\<close> collects the sessions the \<^verbatim>\<open>Select\<close> calls returned, in order.
\<close>

datatype op =
  OpAdd "BroadcastSession list"
| OpComplete BroadcastSession
| OpSelect env
| OpClear

fun step :: "op \<Rightarrow> MinLSSelector \<Rightarrow> panic + (BroadcastSession option \<times> MinLSSelector)" where
  "step (OpAdd sessions) s = Inr (None, MinLSSelector_Add sessions s)"
| "step (OpComplete sess) s = Inr (None, MinLSSelector_Complete sess s)"
| "step (OpSelect e) s =
     (case MinLSSelector_Select e s of Inl p \<Rightarrow> Inl p | Inr (r, s', c) \<Rightarrow> Inr (r, s'))"
| "step OpClear s = Inr (None, MinLSSelector_Clear s)"

fun returned :: "BroadcastSession option \<Rightarrow> BroadcastSession list" where
  "returned None = []"
| "returned (Some x) = [x]"

fun run :: "op list \<Rightarrow> MinLSSelector \<Rightarrow> panic + (BroadcastSession list \<times> MinLSSelector)" where
  "run [] s = Inr ([], s)"
| "run (c # cs) s =
     (case step c s of
        Inl p \<Rightarrow> Inl p
      | Inr (r, s') \<Rightarrow>
          (case run cs s' of Inl p \<Rightarrow> Inl p | Inr (out, s'') \<Rightarrow> Inr (returned r @ out, s'')))"

text \<open>
  Draining: \<^verbatim>\<open>for sel.Size() > 0 { sel.Select() }\<close>, the \<open>k\<close>-th call answered by the
  \<open>k\<close>-th environment; the list bounds the number of calls.
\<close>

fun drain :: "env list \<Rightarrow> MinLSSelector \<Rightarrow> panic + (BroadcastSession list \<times> MinLSSelector)" where
  "drain [] s = Inr ([], s)"
| "drain (e # es) s =
     (if MinLSSelector_Size s = 0 then Inr ([], s)
      else case MinLSSelector_Select e s of
             Inl p \<Rightarrow> Inl p
           | Inr (r, s', c) \<Rightarrow>
               (case drain es s' of
                  Inl p \<Rightarrow> Inl p
                | Inr (out, s'') \<Rightarrow> Inr (returned r @ out, s'')))"

section \<open>Notions used in the statements\<close>

definition mk_session :: "nat \<Rightarrow> float64 \<Rightarrow> 8 word list \<Rightarrow> BroadcastSession" where
  "mk_session p l r = \<lparr>ptr = p, LatencyScore = l, Recipient = r\<rparr>"

text \<open>The stake addresses of a sequence of sessions, one per session, in order.\<close>

definition addrs_of :: "BroadcastSession list \<Rightarrow> Address list" where
  "addrs_of u = map (\<lambda>sess. BytesToAddress (Recipient sess)) u"

text \<open>
  \<^verbatim>\<open>Select\<close> goes to the unscored collection when the heap is empty, or when the entry it
  peeks at scores above the threshold and an unscored session exists.
\<close>

definition takes_unknown_path :: "MinLSSelector \<Rightarrow> bool" where
  "takes_unknown_path s =
     (case Peek (knownSessions s) of
        None \<Rightarrow> True
      | Some minSess \<Rightarrow> f64_gt (LatencyScore minSess) (minLS s) \<and> unknownSessions s \<noteq> [])"

text \<open>The total stake of an answer, and the draw: \<^verbatim>\<open>rand.Int63n(totalStake)\<close> or 0.\<close>

definition totalStake :: "stakeMap \<Rightarrow> int64" where
  "totalStake stakes = sum_list (map snd stakes)"

definition draw :: "env \<Rightarrow> stakeMap \<Rightarrow> int64" where
  "draw e stakes =
     (if 0 < sint (totalStake stakes) then Int63n e (totalStake stakes) else 0)"

text \<open>
  \<open>r\<close> minus the running sum of the stakes of the sessions up to and including the
  \<open>k\<close>-th, in \<^verbatim>\<open>int64\<close> arithmetic.
\<close>

definition running :: "stakeMap \<Rightarrow> Address list \<Rightarrow> int64 \<Rightarrow> nat \<Rightarrow> int64" where
  "running stakes addrs r k = r - sum_list (map (stake_of stakes) (take (Suc k) addrs))"

text \<open>Removal of index \<open>i\<close>: swap with the last element, then truncate.\<close>

definition swap_remove :: "'a list \<Rightarrow> nat \<Rightarrow> 'a list" where
  "swap_remove u i = take (length u - 1) (u[length u - 1 := u ! i, i := u ! (length u - 1)])"

text \<open>
  The stake oracle's contract and that of \<^verbatim>\<open>rand.Int63n\<close>: every query is answered, by a
  map (its keys are distinct) with non-negative stakes and only for addresses that were
  asked for; a draw for a positive bound \<open>n\<close> lies in \<open>[0, n)\<close>.
\<close>

definition answer_ok :: "Address list \<Rightarrow> string + stakeMap \<Rightarrow> bool" where
  "answer_ok addrs a =
     (case a of
        Inl err \<Rightarrow> False
      | Inr stakes \<Rightarrow>
          distinct (map fst stakes) \<and>
          list_all (\<lambda>(k, v). k \<in> set addrs \<and> 0 \<le> sint v) stakes)"

definition env_ok :: "env \<Rightarrow> bool" where
  "env_ok e =
     ((\<forall>addrs. answer_ok addrs (Stakes e addrs)) \<and>
      (\<forall>n. 0 < sint n \<longrightarrow> 0 \<le> sint (Int63n e n) \<and> sint (Int63n e n) < sint n))"

text \<open>Properties of the calls of a run.\<close>

fun scored_ok :: "op \<Rightarrow> bool" where
  "scored_ok (OpComplete sess) = (LatencyScore sess \<noteq> NaN)"
| "scored_ok c = True"

fun is_clear :: "op \<Rightarrow> bool" where
  "is_clear OpClear = True"
| "is_clear c = False"

fun is_feed :: "op \<Rightarrow> bool" where
  "is_feed (OpAdd sessions) = True"
| "is_feed (OpComplete sess) = True"
| "is_feed c = False"

fun is_add_or_select :: "op \<Rightarrow> bool" where
  "is_add_or_select (OpAdd sessions) = True"
| "is_add_or_select (OpSelect e) = True"
| "is_add_or_select c = False"

fun passed :: "op list \<Rightarrow> BroadcastSession list" where
  "passed [] = []"
| "passed (OpAdd sessions # cs) = sessions @ passed cs"
| "passed (OpComplete sess # cs) = sess # passed cs"
| "passed (c # cs) = passed cs"

text \<open>The heap property of a sessHeap whose scores can be compared.\<close>

definition nan_free :: "BroadcastSession list \<Rightarrow> bool" where
  "nan_free h = list_all (\<lambda>x. LatencyScore x \<noteq> NaN) h"

definition heap_upto :: "sessHeap \<Rightarrow> nat \<Rightarrow> bool" where
  "heap_upto h n = (\<forall>k<n. 0 < k \<longrightarrow> \<not> Less h k ((k - 1) div 2))"

definition heap_ok :: "sessHeap \<Rightarrow> bool" where
  "heap_ok h = (nan_free h \<and> (\<forall>k<length h. 0 < k \<longrightarrow> \<not> Less h k ((k - 1) div 2)))"

text \<open>The child that \<^verbatim>\<open>heap.down\<close> compares with the parent \<open>i\<close>.\<close>

definition child :: "sessHeap \<Rightarrow> nat \<Rightarrow> nat \<Rightarrow> nat" where
  "child h i n =
     (if 2 * i + 1 + 1 < n \<and> Less h (2 * i + 1 + 1) (2 * i + 1) then 2 * i + 1 + 1 else 2 * i + 1)"

declare up.simps [simp del] down.simps [simp del]

section \<open>The heap operations\<close>

lemma f64_lt_asym: "f64_lt a b \<Longrightarrow> \<not> f64_lt b a"
  by (cases a; cases b) auto

lemma f64_lt_irrefl [simp]: "\<not> f64_lt a a"
  by (cases a) auto

lemma f64_not_lt_trans: "b \<noteq> NaN \<Longrightarrow> \<not> f64_lt b a \<Longrightarrow> \<not> f64_lt c b \<Longrightarrow> \<not> f64_lt c a"
  by (cases a; cases b; cases c) auto

lemma Less_asym: "Less h a b \<Longrightarrow> \<not> Less h b a"
  by (simp add: Less_def f64_lt_asym)

lemma Less_irrefl [simp]: "\<not> Less h a a"
  using Less_asym by blast

lemma Less_trans:
  "nan_free h \<Longrightarrow> b < length h \<Longrightarrow> \<not> Less h b a \<Longrightarrow> \<not> Less h c b \<Longrightarrow> \<not> Less h c a"
  unfolding Less_def nan_free_def list_all_iff
  using f64_not_lt_trans nth_mem by blast

lemma length_Swap [simp]: "length (Swap h i j) = length h"
  by (simp add: Swap_def)

lemma nth_Swap:
  "i < length h \<Longrightarrow> j < length h \<Longrightarrow> k < length h \<Longrightarrow>
   Swap h i j ! k = (if k = j then h ! i else if k = i then h ! j else h ! k)"
  by (simp add: Swap_def nth_list_update)

lemma mset_Swap: "i < length h \<Longrightarrow> j < length h \<Longrightarrow> mset (Swap h i j) = mset h"
  unfolding Swap_def by (simp add: mset_swap)

lemma nan_free_Swap: "i < length h \<Longrightarrow> j < length h \<Longrightarrow> nan_free (Swap h i j) = nan_free h"
  unfolding nan_free_def list_all_iff using mset_Swap[of i h j] by (metis set_mset_mset)

lemma Less_Swap:
  "i < length h \<Longrightarrow> j < length h \<Longrightarrow> a < length h \<Longrightarrow> b < length h \<Longrightarrow>
   Less (Swap h i j) a b =
   Less h (if a = j then i else if a = i then j else a) (if b = j then i else if b = i then j else b)"
  by (simp add: Less_def nth_Swap)

lemma up_step:
  assumes nf: "nan_free h" and j: "j < length h" and i: "i = (j - 1) div 2" "i \<noteq> j"
    and lt: "Less h j i"
    and inv1: "\<forall>k<length h. 0 < k \<longrightarrow> k \<noteq> j \<longrightarrow> \<not> Less h k ((k - 1) div 2)"
    and inv2: "\<forall>k<length h. 0 < k \<longrightarrow> (k - 1) div 2 = j \<longrightarrow> 0 < j \<longrightarrow> \<not> Less h k ((j - 1) div 2)"
  shows "\<forall>k<length h. 0 < k \<longrightarrow> k \<noteq> i \<longrightarrow> \<not> Less (Swap h i j) k ((k - 1) div 2)"
    and "\<forall>k<length h. 0 < k \<longrightarrow> (k - 1) div 2 = i \<longrightarrow> 0 < i \<longrightarrow> \<not> Less (Swap h i j) k ((i - 1) div 2)"
proof -
  have ij: "i < j" "i < length h" "0 < j" using i j by auto
  have ji: "\<not> Less h i j" using lt by (rule Less_asym)
  show "\<forall>k<length h. 0 < k \<longrightarrow> k \<noteq> i \<longrightarrow> \<not> Less (Swap h i j) k ((k - 1) div 2)"
  proof (intro allI impI)
    fix k assume k: "k < length h" "0 < k" "k \<noteq> i"
    let ?p = "(k - 1) div 2"
    have p: "?p < length h" "?p < k" using k by auto
    consider "k = j" | "k \<noteq> j" "?p = i" | "k \<noteq> j" "?p = j" | "k \<noteq> j" "?p \<noteq> i" "?p \<noteq> j" by blast
    then show "\<not> Less (Swap h i j) k ?p"
    proof cases
      case 1 then show ?thesis using ij j i ji by (simp add: Less_Swap)
    next
      case 2
      have "\<not> Less h k i" using inv1 k 2 by auto
      then have "\<not> Less h k j" using Less_trans[OF nf ij(2) ji] by blast
      then show ?thesis using 2 k ij j p by (simp add: Less_Swap)
    next
      case 3
      have "\<not> Less h k i" using inv2 k 3 ij i by auto
      then show ?thesis using 3 k ij j p by (simp add: Less_Swap)
    next
      case 4
      then show ?thesis using inv1 k ij j p by (simp add: Less_Swap)
    qed
  qed
  show "\<forall>k<length h. 0 < k \<longrightarrow> (k - 1) div 2 = i \<longrightarrow> 0 < i \<longrightarrow> \<not> Less (Swap h i j) k ((i - 1) div 2)"
  proof (intro allI impI)
    fix k assume k: "k < length h" "0 < k" "(k - 1) div 2 = i" "0 < i"
    let ?g = "(i - 1) div 2"
    have g: "?g < i" "?g < length h" "?g \<noteq> j" "k \<noteq> i" using k ij by auto
    have gi: "\<not> Less h i ?g" using inv1 ij k by auto
    show "\<not> Less (Swap h i j) k ?g"
    proof (cases "k = j")
      case True then show ?thesis using gi g ij j by (simp add: Less_Swap)
    next
      case False
      have "\<not> Less h k i" using inv1 k False by auto
      then have "\<not> Less h k ?g" using Less_trans[OF nf ij(2) gi] by blast
      then show ?thesis using False g ij j k by (simp add: Less_Swap)
    qed
  qed
qed

lemma up_stop_eq: "(j - 1) div 2 = j \<or> \<not> Less h j ((j - 1) div 2) \<Longrightarrow> up h j = h"
  by (subst up.simps) (auto simp: Let_def)

lemma up_rec_eq:
  "(j - 1) div 2 \<noteq> j \<Longrightarrow> Less h j ((j - 1) div 2) \<Longrightarrow>
   up h j = up (Swap h ((j - 1) div 2) j) ((j - 1) div 2)"
  by (subst up.simps) (auto simp: Let_def)

lemma length_up [simp]: "length (up h j) = length h"
proof (induction h j rule: up.induct)
  case (1 h j)
  show ?case using "1.IH"[OF refl]
    by (subst up.simps) (auto simp: Let_def)
qed

lemma up_heap_aux:
  "nan_free h \<Longrightarrow> j < length h \<Longrightarrow>
   \<forall>k<length h. 0 < k \<longrightarrow> k \<noteq> j \<longrightarrow> \<not> Less h k ((k - 1) div 2) \<Longrightarrow>
   \<forall>k<length h. 0 < k \<longrightarrow> (k - 1) div 2 = j \<longrightarrow> 0 < j \<longrightarrow> \<not> Less h k ((j - 1) div 2) \<Longrightarrow>
   heap_upto (up h j) (length h)"
proof (induction h j rule: up.induct)
  case (1 h j)
  let ?i = "(j - 1) div 2"
  show ?case
  proof (cases "?i = j \<or> \<not> Less h j ?i")
    case True
    then have "up h j = h" by (subst up.simps) (simp add: Let_def)
    moreover have "heap_upto h (length h)"
    proof (cases "?i = j")
      case True
      then have "j = 0" by presburger
      then show ?thesis unfolding heap_upto_def using "1.prems"(3) by simp
    next
      case False
      with True have "\<not> Less h j ?i" by simp
      then show ?thesis unfolding heap_upto_def using "1.prems"(3) by metis
    qed
    ultimately show ?thesis by simp
  next
    case False
    then have eq: "up h j = up (Swap h ?i j) ?i" by (subst up.simps) (simp add: Let_def)
    have ilt: "?i < length h" using "1.prems"(2) by auto
    have "heap_upto (up (Swap h ?i j) ?i) (length (Swap h ?i j))"
    proof (rule "1.IH"[OF refl])
      show "\<not> (?i = j \<or> \<not> Less h j ?i)" using False .
      show "nan_free (Swap h ?i j)" using "1.prems"(1,2) ilt by (simp add: nan_free_Swap)
      show "?i < length (Swap h ?i j)" using ilt by simp
      show "\<forall>k<length (Swap h ?i j). 0 < k \<longrightarrow> k \<noteq> ?i \<longrightarrow> \<not> Less (Swap h ?i j) k ((k - 1) div 2)"
        using up_step(1)[OF "1.prems"(1,2) refl _ _ "1.prems"(3,4)] False by simp
      show "\<forall>k<length (Swap h ?i j). 0 < k \<longrightarrow> (k - 1) div 2 = ?i \<longrightarrow> 0 < ?i \<longrightarrow>
              \<not> Less (Swap h ?i j) k ((?i - 1) div 2)"
        using up_step(2)[OF "1.prems"(1,2) refl _ _ "1.prems"(3,4)] False by simp
    qed
    then show ?thesis using eq by simp
  qed
qed

lemma down_stop_eq: "n \<le> 2 * i + 1 \<or> \<not> Less h (child h i n) i \<Longrightarrow> down h i n = h"
  by (subst down.simps) (auto simp: Let_def child_def)

lemma down_rec_eq:
  "2 * i + 1 < n \<Longrightarrow> Less h (child h i n) i \<Longrightarrow>
   down h i n = down (Swap h i (child h i n)) (child h i n) n"
  by (subst down.simps) (auto simp: Let_def child_def)

lemma down_induct:
  assumes "\<And>h i n. (2 * i + 1 < n \<Longrightarrow> Less h (child h i n) i \<Longrightarrow>
             P (Swap h i (child h i n)) (child h i n) n) \<Longrightarrow> P h i n"
  shows "P h i n"
proof (induction h i n rule: down.induct)
  case (1 h i n)
  show ?case
  proof (rule assms)
    assume a: "2 * i + 1 < n" "Less h (child h i n) i"
    show "P (Swap h i (child h i n)) (child h i n) n"
      unfolding child_def
      by (rule "1.IH"[OF refl _ refl]) (use a in \<open>simp_all add: child_def\<close>)
  qed
qed

lemma child_bounds:
  "2 * i + 1 < n \<Longrightarrow> child h i n < n \<and> i < child h i n \<and> (child h i n - 1) div 2 = i"
  by (auto simp: child_def)

lemma down_step:
  assumes nf: "nan_free h" and n: "n \<le> length h" and j1: "2 * i + 1 < n"
    and j: "j = child h i n"
    and lt: "Less h j i"
    and inv1: "\<forall>k<n. 0 < k \<longrightarrow> (k - 1) div 2 \<noteq> i \<longrightarrow> \<not> Less h k ((k - 1) div 2)"
    and inv2: "\<forall>k<n. 0 < k \<longrightarrow> (k - 1) div 2 = i \<longrightarrow> 0 < i \<longrightarrow> \<not> Less h k ((i - 1) div 2)"
  shows "\<forall>k<n. 0 < k \<longrightarrow> (k - 1) div 2 \<noteq> j \<longrightarrow> \<not> Less (Swap h i j) k ((k - 1) div 2)"
    and "\<forall>k<n. 0 < k \<longrightarrow> (k - 1) div 2 = j \<longrightarrow> 0 < j \<longrightarrow> \<not> Less (Swap h i j) k ((j - 1) div 2)"
proof -
  have jn: "j < n" "i < j" "(j - 1) div 2 = i" "j < length h" "i < length h" "0 < j"
    using j child_bounds[OF j1, of h] n by auto
  have ji: "\<not> Less h i j" using lt by (rule Less_asym)
  have sib: "\<not> Less h k j" if "k < n" "0 < k" "(k - 1) div 2 = i" for k
  proof -
    have "k = 2 * i + 1 \<or> k = 2 * i + 1 + 1" using that by presburger
    then show ?thesis
    proof
      assume "k = 2 * i + 1"
      then show ?thesis using j
        by (auto simp: child_def Less_def dest: f64_lt_asym)
    next
      assume "k = 2 * i + 1 + 1"
      then show ?thesis using j that(1) by (auto simp: child_def Less_def)
    qed
  qed
  show "\<forall>k<n. 0 < k \<longrightarrow> (k - 1) div 2 \<noteq> j \<longrightarrow> \<not> Less (Swap h i j) k ((k - 1) div 2)"
  proof (intro allI impI)
    fix k assume k: "k < n" "0 < k" "(k - 1) div 2 \<noteq> j"
    let ?p = "(k - 1) div 2"
    have p: "?p < length h" "?p < k" "k < length h" using k n by auto
    consider "k = j" | "k = i" | "k \<noteq> j" "k \<noteq> i" "?p = i" | "k \<noteq> j" "k \<noteq> i" "?p \<noteq> i" by blast
    then show "\<not> Less (Swap h i j) k ?p"
    proof cases
      case 1 then show ?thesis using jn ji by (simp add: Less_Swap)
    next
      case 2
      then have "0 < i" using k by simp
      then have "\<not> Less h j ((i - 1) div 2)" using inv2 jn by auto
      moreover have "(i - 1) div 2 < i" using \<open>0 < i\<close> by auto
      ultimately show ?thesis using 2 jn p by (simp add: Less_Swap)
    next
      case 3
      then show ?thesis using sib[OF k(1,2)] jn p by (simp add: Less_Swap)
    next
      case 4
      then show ?thesis using inv1 k jn p by (simp add: Less_Swap)
    qed
  qed
  show "\<forall>k<n. 0 < k \<longrightarrow> (k - 1) div 2 = j \<longrightarrow> 0 < j \<longrightarrow> \<not> Less (Swap h i j) k ((j - 1) div 2)"
  proof (intro allI impI)
    fix k assume k: "k < n" "0 < k" "(k - 1) div 2 = j" "0 < j"
    have kk: "k \<noteq> i" "k \<noteq> j" "k < length h" using k jn n by auto
    have "\<not> Less h k j" using inv1 k jn by auto
    then show "\<not> Less (Swap h i j) k ((j - 1) div 2)"
      using kk jn by (simp add: Less_Swap)
  qed
qed

lemma down_stop:
  assumes nf: "nan_free h" and n: "n \<le> length h"
    and stop: "n \<le> 2 * i + 1 \<or> \<not> Less h (child h i n) i"
    and inv1: "\<forall>k<n. 0 < k \<longrightarrow> (k - 1) div 2 \<noteq> i \<longrightarrow> \<not> Less h k ((k - 1) div 2)"
  shows "heap_upto h n"
  unfolding heap_upto_def
proof (intro allI impI)
  fix k assume k: "k < n" "0 < k"
  show "\<not> Less h k ((k - 1) div 2)"
  proof (cases "(k - 1) div 2 = i")
    case False then show ?thesis using inv1 k by simp
  next
    case True
    then have kk: "k = 2 * i + 1 \<or> k = 2 * i + 1 + 1" using k by presburger
    then have c: "2 * i + 1 < n" using k by auto
    have nl: "\<not> Less h (child h i n) i" using stop c by simp
    have jl: "child h i n < length h" using child_bounds[OF c, of h] n by simp
    have "\<not> Less h k (child h i n)"
      using kk k by (auto simp: Less_def child_def dest: f64_lt_asym)
    then have "\<not> Less h k i" using Less_trans[OF nf jl nl] by blast
    then show ?thesis using True by simp
  qed
qed

lemma length_down [simp]: "length (down h i n) = length h"
proof (induction h i n rule: down_induct)
  case (1 h i n)
  show ?case
  proof (cases "2 * i + 1 < n \<and> Less h (child h i n) i")
    case True
    then show ?thesis using 1 by (simp add: down_rec_eq)
  next
    case False
    then have "n \<le> 2 * i + 1 \<or> \<not> Less h (child h i n) i" by auto
    then show ?thesis by (simp add: down_stop_eq)
  qed
qed

lemma down_heap_aux:
  "nan_free h \<Longrightarrow> n \<le> length h \<Longrightarrow>
   \<forall>k<n. 0 < k \<longrightarrow> (k - 1) div 2 \<noteq> i \<longrightarrow> \<not> Less h k ((k - 1) div 2) \<Longrightarrow>
   \<forall>k<n. 0 < k \<longrightarrow> (k - 1) div 2 = i \<longrightarrow> 0 < i \<longrightarrow> \<not> Less h k ((i - 1) div 2) \<Longrightarrow>
   heap_upto (down h i n) n"
proof (induction h i n rule: down_induct)
  case (1 h i n)
  let ?j = "child h i n"
  show ?case
  proof (cases "2 * i + 1 < n \<and> Less h ?j i")
    case False
    then have stop: "n \<le> 2 * i + 1 \<or> \<not> Less h ?j i" by auto
    show ?thesis using down_stop[OF "1.prems"(1,2) stop "1.prems"(3)] by (simp add: down_stop_eq[OF stop])
  next
    case True
    then have b: "2 * i + 1 < n" "Less h ?j i" by auto
    have jl: "?j < length h" "i < length h" using child_bounds[OF b(1), of h] "1.prems"(2) by auto
    have "heap_upto (down (Swap h i ?j) ?j n) n"
    proof (rule "1.IH"[OF b])
      show "nan_free (Swap h i ?j)" using "1.prems"(1) jl by (simp add: nan_free_Swap)
      show "n \<le> length (Swap h i ?j)" using "1.prems"(2) by simp
      show "\<forall>k<n. 0 < k \<longrightarrow> (k - 1) div 2 \<noteq> ?j \<longrightarrow> \<not> Less (Swap h i ?j) k ((k - 1) div 2)"
        by (rule down_step(1)[OF "1.prems"(1,2) b(1) refl b(2) "1.prems"(3,4)])
      show "\<forall>k<n. 0 < k \<longrightarrow> (k - 1) div 2 = ?j \<longrightarrow> 0 < ?j \<longrightarrow> \<not> Less (Swap h i ?j) k ((?j - 1) div 2)"
        by (rule down_step(2)[OF "1.prems"(1,2) b(1) refl b(2) "1.prems"(3,4)])
    qed
    then show ?thesis by (simp add: down_rec_eq[OF b])
  qed
qed

lemma mset_up: "j < length h \<Longrightarrow> mset (up h j) = mset h"
proof (induction h j rule: up.induct)
  case (1 h j)
  show ?case
  proof (cases "(j - 1) div 2 = j \<or> \<not> Less h j ((j - 1) div 2)")
    case True
    then show ?thesis by (subst up.simps) (simp add: Let_def)
  next
    case False
    have "(j - 1) div 2 < length h" using "1.prems" by auto
    then show ?thesis using False "1.IH"[OF refl False] "1.prems"
      by (subst up.simps) (simp add: Let_def mset_Swap)
  qed
qed

lemma down_props:
  "n \<le> length h \<Longrightarrow> i < n \<Longrightarrow>
   mset (down h i n) = mset h \<and> (\<forall>m. n \<le> m \<longrightarrow> down h i n ! m = h ! m)"
proof (induction h i n rule: down_induct)
  case (1 h i n)
  let ?j = "child h i n"
  show ?case
  proof (cases "2 * i + 1 < n \<and> Less h ?j i")
    case False
    then have "n \<le> 2 * i + 1 \<or> \<not> Less h (child h i n) i" by auto
    then show ?thesis by (simp add: down_stop_eq)
  next
    case True
    then have b: "2 * i + 1 < n" "Less h ?j i" by auto
    have jl: "?j < n" "?j < length h" "i < length h"
      using child_bounds[OF b(1), of h] "1.prems" by auto
    have ih: "mset (down (Swap h i ?j) ?j n) = mset (Swap h i ?j) \<and>
          (\<forall>m. n \<le> m \<longrightarrow> down (Swap h i ?j) ?j n ! m = Swap h i ?j ! m)"
      by (rule "1.IH"[OF b]) (use jl "1.prems" in simp_all)
    have "Swap h i ?j ! m = h ! m" if "n \<le> m" for m
      using that jl "1.prems" unfolding Swap_def by simp
    then show ?thesis using ih jl by (simp add: down_rec_eq[OF b] mset_Swap)
  qed
qed

lemma nan_free_mset: "mset a = mset b \<Longrightarrow> nan_free a = nan_free b"
  unfolding nan_free_def list_all_iff by (metis set_mset_mset)

lemma heap_ok_upto: "heap_ok h = (nan_free h \<and> heap_upto h (length h))"
  by (simp add: heap_ok_def heap_upto_def)

lemma mset_heap_Push: "mset (heap_Push h x) = mset h + {#x#}"
  by (simp add: heap_Push_def sessHeap_Push_def Len_def mset_up)

lemma length_heap_Push: "length (heap_Push h x) = Suc (length h)"
  by (simp add: heap_Push_def sessHeap_Push_def Len_def)

lemma heap_ok_Push:
  assumes "heap_ok h" and "LatencyScore x \<noteq> NaN"
  shows "heap_ok (heap_Push h x)"
proof -
  let ?h = "h @ [x]"
  have nf: "nan_free ?h" using assms by (simp add: heap_ok_def nan_free_def)
  have inv1: "\<forall>k<length ?h. 0 < k \<longrightarrow> k \<noteq> length h \<longrightarrow> \<not> Less ?h k ((k - 1) div 2)"
  proof (intro allI impI)
    fix k assume k: "k < length ?h" "0 < k" "k \<noteq> length h"
    then have "k < length h" "(k - 1) div 2 < length h" by auto
    then show "\<not> Less ?h k ((k - 1) div 2)"
      using assms(1) k by (simp add: heap_ok_def Less_def nth_append)
  qed
  have inv2: "\<forall>k<length ?h. 0 < k \<longrightarrow> (k - 1) div 2 = length h \<longrightarrow> 0 < length h \<longrightarrow>
      \<not> Less ?h k ((length h - 1) div 2)"
    by auto
  have "heap_upto (up ?h (length h)) (length ?h)"
    by (rule up_heap_aux[OF nf _ inv1 inv2]) simp
  moreover have "nan_free (up ?h (length h))"
    using nf nan_free_mset[OF mset_up[of "length h" ?h]] by simp
  ultimately show ?thesis
    by (simp add: heap_ok_upto heap_Push_def sessHeap_Push_def Len_def)
qed

lemma heap_Pop_eq:
  assumes "h \<noteq> []"
  shows "heap_Pop h = Inr (h ! 0, take (length h - 1) (down (Swap h 0 (length h - 1)) 0 (length h - 1)))"
proof -
  let ?n = "length h - 1"
  have n: "?n < length h" using assms by (simp add: Suc_leI)
  show ?thesis
  proof (cases "?n = 0")
    case True
    then have "down (Swap h 0 ?n) 0 ?n = Swap h 0 ?n" by (simp add: down_stop_eq)
    then show ?thesis using assms True
      by (simp add: heap_Pop_def sessHeap_Pop_def Len_def Let_def Swap_def)
  next
    case False
    then have "down (Swap h 0 ?n) 0 ?n ! ?n = Swap h 0 ?n ! ?n"
      using down_props[of ?n "Swap h 0 ?n" 0] by simp
    also have "\<dots> = h ! 0" using n assms by (simp add: nth_Swap)
    finally show ?thesis using assms
      by (simp add: heap_Pop_def sessHeap_Pop_def Len_def Let_def)
  qed
qed

lemma heap_Pop_mset:
  assumes "h \<noteq> []" and "heap_Pop h = Inr (x, h')"
  shows "x = h ! 0" and "mset h' + {#x#} = mset h" and "Suc (length h') = length h"
proof -
  let ?n = "length h - 1"
  let ?d = "down (Swap h 0 ?n) 0 ?n"
  have n: "?n < length h" using assms by (simp add: Suc_leI)
  have x: "x = h ! 0" and h': "h' = take ?n ?d" using assms heap_Pop_eq[OF assms(1)] by auto
  have dn: "?d ! ?n = h ! 0 \<and> mset ?d = mset h"
  proof (cases "?n = 0")
    case True
    then have "?d = Swap h 0 ?n" by (simp add: down_stop_eq)
    then show ?thesis using True n by (simp add: Swap_def)
  next
    case False
    then show ?thesis using down_props[of ?n "Swap h 0 ?n" 0] n assms(1)
      by (simp add: nth_Swap mset_Swap)
  qed
  have len: "Suc ?n = length ?d" using assms(1) by simp
  have "take (Suc ?n) ?d = take ?n ?d @ [?d ! ?n]"
    by (rule take_Suc_conv_app_nth) (use len in simp)
  then have split: "?d = take ?n ?d @ [h ! 0]" using len dn by simp
  have "mset (take ?n ?d @ [h ! 0]) = mset h" using dn split by metis
  then have "mset (take ?n ?d) + {#h ! 0#} = mset h" by simp
  moreover have "Suc (length (take ?n ?d)) = length h" using assms(1) by simp
  ultimately show "x = h ! 0" and "mset h' + {#x#} = mset h" and "Suc (length h') = length h"
    using x h' by simp_all
qed

lemma heap_ok_Pop:
  assumes ok: "heap_ok h" and ne: "h \<noteq> []" and pop: "heap_Pop h = Inr (x, h')"
  shows "heap_ok h'"
proof -
  let ?n = "length h - 1"
  let ?s = "Swap h 0 ?n"
  let ?d = "down ?s 0 ?n"
  have n: "?n < length h" using ne by (simp add: Suc_leI)
  have h': "h' = take ?n ?d" using pop heap_Pop_eq[OF ne] by auto
  have nf: "nan_free ?s" using ok n ne by (simp add: heap_ok_def nan_free_Swap)
  have inv1: "\<forall>k<?n. 0 < k \<longrightarrow> (k - 1) div 2 \<noteq> 0 \<longrightarrow> \<not> Less ?s k ((k - 1) div 2)"
  proof (intro allI impI)
    fix k assume k: "k < ?n" "0 < k" "(k - 1) div 2 \<noteq> 0"
    have kk: "k < length h" "(k - 1) div 2 < length h" "k \<noteq> ?n" "(k - 1) div 2 \<noteq> ?n"
      "k \<noteq> 0" "(k - 1) div 2 \<noteq> 0" using k by auto
    have "\<not> Less h k ((k - 1) div 2)" using ok kk by (simp add: heap_ok_def)
    moreover have "0 < length h" using ne by simp
    ultimately show "\<not> Less ?s k ((k - 1) div 2)"
      using kk n by (simp add: Less_Swap)
  qed
  have "heap_upto ?d ?n"
    by (rule down_heap_aux[OF nf _ inv1]) simp_all
  then have "heap_upto (take ?n ?d) ?n"
    by (auto simp: heap_upto_def Less_def)
  moreover have "length (take ?n ?d) = ?n" using n by simp
  moreover have "nan_free (take ?n ?d)"
  proof -
    have "mset h' + {#x#} = mset h" by (rule heap_Pop_mset(2)[OF ne pop])
    then have "set h' \<subseteq> set h" by (metis set_mset_mset mset_subset_eq_add_left set_mset_mono)
    then show ?thesis using ok h' by (auto simp: heap_ok_def nan_free_def list_all_iff)
  qed
  ultimately show ?thesis using h' by (simp add: heap_ok_upto)
qed

lemma heap_ok_root:
  assumes ok: "heap_ok h" and k: "k < length h"
  shows "\<not> Less h k 0"
  using k
proof (induction k rule: less_induct)
  case (less k)
  show ?case
  proof (cases "k = 0")
    case True then show ?thesis by simp
  next
    case False
    let ?p = "(k - 1) div 2"
    have p: "?p < k" using False by auto
    then have "\<not> Less h ?p 0" using less by simp
    moreover have "\<not> Less h k ?p" using ok less.prems False by (simp add: heap_ok_def)
    moreover have "?p < length h" using p less.prems by simp
    ultimately show ?thesis using Less_trans[of h ?p 0 k] ok by (simp add: heap_ok_def)
  qed
qed

lemma heap_ok_min:
  assumes "heap_ok h" and "x \<in> set h"
  shows "\<not> f64_lt (LatencyScore x) (LatencyScore (h ! 0))"
  using assms heap_ok_root[OF assms(1)] by (auto simp: in_set_conv_nth Less_def)

text \<open>Rules that evaluate the heap operations on explicit heaps.\<close>

lemmas eval_heap = NewMinLSSelector_def heap_Init_def MinLSSelector_Complete_def heap_Push_def
  sessHeap_Push_def Len_def up_stop_eq up_rec_eq down_stop_eq down_rec_eq child_def
  Less_def Swap_def mk_session_def MinLSSelector_Select_def Peek_def f64_gt_def heap_Pop_def
  sessHeap_Pop_def Let_def

section \<open>Selection\<close>

lemma Select_unknown:
  "takes_unknown_path s \<Longrightarrow> MinLSSelector_Select e s = Inr (selectUnknownSession e s)"
  by (auto simp: takes_unknown_path_def MinLSSelector_Select_def split: option.splits)

lemma not_unknown_path:
  "\<not> takes_unknown_path s \<Longrightarrow>
   knownSessions s \<noteq> [] \<and> Peek (knownSessions s) = Some (knownSessions s ! 0) \<and>
   \<not> (f64_gt (LatencyScore (knownSessions s ! 0)) (minLS s) \<and> unknownSessions s \<noteq> [])"
  by (auto simp: takes_unknown_path_def Peek_def Len_def split: option.splits if_splits)

lemma Select_known:
  assumes "\<not> takes_unknown_path s"
  shows "MinLSSelector_Select e s =
      Inr (Some (knownSessions s ! 0),
           s\<lparr>knownSessions := take (length (knownSessions s) - 1)
               (down (Swap (knownSessions s) 0 (length (knownSessions s) - 1)) 0
                 (length (knownSessions s) - 1))\<rparr>, [])"
  using not_unknown_path[OF assms] heap_Pop_eq[of "knownSessions s"]
  by (auto simp: MinLSSelector_Select_def)

lemma sus_empty: "unknownSessions s = [] \<Longrightarrow> selectUnknownSession e s = (None, s, [])"
  by (simp add: selectUnknownSession_def)

lemma sus_offline:
  "unknownSessions s = x # xs \<Longrightarrow> \<not> stakeRdr s \<Longrightarrow>
   selectUnknownSession e s = (Some x, s\<lparr>unknownSessions := xs\<rparr>, [])"
  by (simp add: selectUnknownSession_def)

lemma sus_error:
  "unknownSessions s \<noteq> [] \<Longrightarrow> stakeRdr s \<Longrightarrow>
   Stakes e (addrs_of (unknownSessions s)) = Inl err \<Longrightarrow>
   selectUnknownSession e s = (None, s, [addrs_of (unknownSessions s)])"
  by (simp add: selectUnknownSession_def addrs_of_def)

lemma sus_oracle:
  "unknownSessions s \<noteq> [] \<Longrightarrow> stakeRdr s \<Longrightarrow>
   Stakes e (addrs_of (unknownSessions s)) = Inr stakes \<Longrightarrow>
   selectUnknownSession e s =
     (case pick stakes (addrs_of (unknownSessions s)) (draw e stakes) 0 of
        None \<Rightarrow> (None, s, [addrs_of (unknownSessions s)])
      | Some i \<Rightarrow> (Some (unknownSessions s ! i),
                   s\<lparr>unknownSessions := swap_remove (unknownSessions s) i\<rparr>,
                   [addrs_of (unknownSessions s)]))"
  by (auto simp: selectUnknownSession_def addrs_of_def draw_def totalStake_def swap_remove_def
      Let_def split: option.splits)

lemma running_Cons_0: "running stakes (a # as) r 0 = r - stake_of stakes a"
  by (simp add: running_def)

lemma running_Cons_Suc: "running stakes (a # as) r (Suc k) = running stakes as (r - stake_of stakes a) k"
  by (simp add: running_def algebra_simps)

lemma pick_first:
  "w < length addrs \<Longrightarrow> sint (running stakes addrs r w) \<le> 0 \<Longrightarrow>
   \<forall>k<w. \<not> sint (running stakes addrs r k) \<le> 0 \<Longrightarrow>
   pick stakes addrs r i = Some (i + w)"
proof (induction addrs arbitrary: r i w)
  case Nil
  then show ?case by simp
next
  case (Cons a as)
  show ?case
  proof (cases w)
    case 0
    then show ?thesis using Cons.prems by (simp add: running_Cons_0 Let_def)
  next
    case (Suc w')
    have first: "\<not> sint (r - stake_of stakes a) \<le> 0"
      using Cons.prems(3) Suc by (auto simp: running_Cons_0 dest: spec[of _ 0])
    have "pick stakes as (r - stake_of stakes a) (Suc i) = Some (Suc i + w')"
    proof (rule Cons.IH)
      show "w' < length as" using Cons.prems(1) Suc by simp
      show "sint (running stakes as (r - stake_of stakes a) w') \<le> 0"
        using Cons.prems(2) Suc by (simp add: running_Cons_Suc)
      show "\<forall>k<w'. \<not> sint (running stakes as (r - stake_of stakes a) k) \<le> 0"
        using Cons.prems(3) Suc by (auto simp: running_Cons_Suc dest: spec[of _ "Suc _"])
    qed
    then show ?thesis using first Suc by (simp add: Let_def)
  qed
qed

lemma pick_none:
  "\<forall>k<length addrs. \<not> sint (running stakes addrs r k) \<le> 0 \<Longrightarrow> pick stakes addrs r i = None"
proof (induction addrs arbitrary: r i)
  case Nil
  then show ?case by simp
next
  case (Cons a as)
  have first: "\<not> sint (r - stake_of stakes a) \<le> 0"
    using Cons.prems by (auto simp: running_Cons_0 dest: spec[of _ 0])
  have "pick stakes as (r - stake_of stakes a) (Suc i) = None"
  proof (rule Cons.IH, intro allI impI)
    fix k assume "k < length as"
    then show "\<not> sint (running stakes as (r - stake_of stakes a) k) \<le> 0"
      using Cons.prems by (auto simp: running_Cons_Suc dest: spec[of _ "Suc k"])
  qed
  then show ?case using first by (simp add: Let_def)
qed

lemma pick_bound: "pick stakes addrs r i = Some w \<Longrightarrow> i \<le> w \<and> w < i + length addrs"
proof (induction addrs arbitrary: r i)
  case Nil
  then show ?case by simp
next
  case (Cons a as)
  then show ?case by (fastforce simp: Let_def split: if_splits)
qed

lemma mset_swap_remove:
  assumes "i < length u"
  shows "mset (swap_remove u i) + {#u ! i#} = mset u"
proof -
  let ?n = "length u - 1"
  let ?u = "u[?n := u ! i, i := u ! ?n]"
  have n: "?n < length u" using assms by simp
  have m: "mset ?u = mset u" by (rule mset_swap[OF assms n])
  have l: "?u ! ?n = u ! i" using assms n by (cases "i = ?n") (simp_all)
  have len: "Suc ?n = length ?u" using assms by simp
  have "take (Suc ?n) ?u = take ?n ?u @ [?u ! ?n]"
    by (rule take_Suc_conv_app_nth) (use len in simp)
  then have split: "?u = take ?n ?u @ [u ! i]" using len l by simp
  have "mset (take ?n ?u @ [u ! i]) = mset u" using m split by metis
  then show ?thesis by (simp add: swap_remove_def)
qed

lemma sus_props:
  assumes "selectUnknownSession e s = (r, s', c)"
  shows "knownSessions s' = knownSessions s \<and> stakeRdr s' = stakeRdr s \<and> minLS s' = minLS s \<and>
         mset (unknownSessions s') + mset (returned r) = mset (unknownSessions s)"
proof (cases "unknownSessions s")
  case Nil
  then show ?thesis using assms by (simp add: sus_empty)
next
  case (Cons x xs)
  show ?thesis
  proof (cases "stakeRdr s")
    case False
    then show ?thesis using assms Cons by (auto simp: sus_offline)
  next
    case True
    have ne: "unknownSessions s \<noteq> []" using Cons by simp
    show ?thesis
    proof (cases "Stakes e (addrs_of (unknownSessions s))")
      case (Inl err)
      then show ?thesis using assms sus_error[OF ne True Inl] by auto
    next
      case (Inr stakes)
      show ?thesis
      proof (cases "pick stakes (addrs_of (unknownSessions s)) (draw e stakes) 0")
        case None
        then show ?thesis using assms sus_oracle[OF ne True Inr] by auto
      next
        case (Some i)
        then have "i < length (unknownSessions s)"
          using pick_bound[OF Some] by (simp add: addrs_of_def)
        then show ?thesis using assms sus_oracle[OF ne True Inr] Some mset_swap_remove
          by auto
      qed
    qed
  qed
qed

section \<open>Stake-weighted draws under the oracle's contract\<close>

lemma sint_sub_nonneg:
  fixes r v :: int64
  assumes "0 \<le> sint r" and "0 \<le> sint v"
  shows "sint (r - v) = sint r - sint v"
proof -
  have "sint r < 2 ^ 63" "sint v < 2 ^ 63" using sint_lt[of r] sint_lt[of v] by simp_all
  then have "- (2 ^ 63) \<le> sint r - sint v" "sint r - sint v < 2 ^ 63" using assms by simp_all
  then have "signed_take_bit 63 (sint r - sint v) = sint r - sint v"
    by (rule signed_take_bit_int_eq_self)
  then show ?thesis by (simp add: sint_word_ariths)
qed

lemma sint_add_le:
  fixes a b :: int64
  assumes "0 \<le> sint a"
  shows "sint (a + b) \<le> sint a + sint b"
proof -
  have "- (2 ^ 63) \<le> sint b" using sint_ge[of b] by simp
  then have "- (2 ^ 63) \<le> sint a + sint b" using assms by simp
  then have "signed_take_bit 63 (sint a + sint b) \<le> sint a + sint b"
    by (simp add: signed_take_bit_int_less_eq_self_iff)
  then show ?thesis by (simp add: sint_word_ariths)
qed

lemma sint_sum_list_le:
  fixes vs :: "int64 list"
  shows "list_all (\<lambda>v. 0 \<le> sint v) vs \<Longrightarrow> sint (sum_list vs) \<le> sum_list (map sint vs)"
proof (induction vs)
  case Nil
  then show ?case by simp
next
  case (Cons v vs)
  then have "sint (v + sum_list vs) \<le> sint v + sint (sum_list vs)"
    using sint_add_le[of v "sum_list vs"] by simp
  then show ?case using Cons by simp
qed

lemma pick_exists:
  "addrs \<noteq> [] \<Longrightarrow> list_all (\<lambda>a. 0 \<le> sint (stake_of stakes a)) addrs \<Longrightarrow> 0 \<le> sint r \<Longrightarrow>
   sint r \<le> sum_list (map (\<lambda>a. sint (stake_of stakes a)) addrs) \<Longrightarrow>
   \<exists>w. pick stakes addrs r i = Some w"
proof (induction addrs arbitrary: r i)
  case Nil
  then show ?case by simp
next
  case (Cons a as)
  let ?r = "r - stake_of stakes a"
  have sub: "sint ?r = sint r - sint (stake_of stakes a)"
    using Cons.prems by (simp add: sint_sub_nonneg)
  show ?case
  proof (cases "sint ?r \<le> 0")
    case True
    then show ?thesis by (simp add: Let_def)
  next
    case False
    have le: "sint ?r \<le> sum_list (map (\<lambda>a. sint (stake_of stakes a)) as)"
      using Cons.prems(4) sub by simp
    then have "as \<noteq> []" using False by auto
    then have "\<exists>w. pick stakes as ?r (Suc i) = Some w"
      using Cons.IH[of ?r "Suc i"] Cons.prems(2) False le by simp
    then show ?thesis using False by (simp add: Let_def)
  qed
qed

lemma stake_of_Cons: "stake_of ((k, v) # m) a = (if a = k then v else stake_of m a)"
  by (simp add: stake_of_def)

lemma stake_of_absent: "k \<notin> fst ` set m \<Longrightarrow> stake_of m k = 0"
  by (simp add: stake_of_def map_of_eq_None_iff[THEN iffD2])

lemma sum_stake_Cons:
  assumes "k \<notin> fst ` set m"
  shows "sum_list (map (\<lambda>a. sint (stake_of ((k, v) # m) a)) addrs)
       = int (count_list addrs k) * sint v + sum_list (map (\<lambda>a. sint (stake_of m a)) addrs)"
proof (induction addrs)
  case Nil
  then show ?case by simp
next
  case (Cons a as)
  then show ?case using stake_of_absent[OF assms]
    by (simp add: stake_of_Cons algebra_simps)
qed

lemma sum_stakes_le:
  "distinct (map fst stakes) \<Longrightarrow> list_all (\<lambda>(k, v). k \<in> set addrs \<and> 0 \<le> sint v) stakes \<Longrightarrow>
   sum_list (map sint (map snd stakes)) \<le> sum_list (map (\<lambda>a. sint (stake_of stakes a)) addrs)"
proof (induction stakes)
  case Nil
  then show ?case by (simp add: stake_of_def)
next
  case (Cons kv m)
  obtain k v where kv: "kv = (k, v)" by (cases kv)
  have k: "k \<notin> fst ` set m" "k \<in> set addrs" "0 \<le> sint v" using Cons.prems kv by auto
  have ih: "sum_list (map sint (map snd m)) \<le> sum_list (map (\<lambda>a. sint (stake_of m a)) addrs)"
    using Cons by simp
  have "count_list addrs k \<noteq> 0" using k(2) by (simp add: count_list_0_iff)
  then have "1 \<le> count_list addrs k" by simp
  then have "sint v \<le> int (count_list addrs k) * sint v"
    using k(3) by (simp add: mult_le_cancel_right1)
  then show ?case using ih kv by (simp add: sum_stake_Cons[OF k(1)])
qed

lemma stake_of_nonneg:
  "list_all (\<lambda>(k, v). k \<in> set addrs \<and> 0 \<le> sint v) stakes \<Longrightarrow> 0 \<le> sint (stake_of stakes a)"
  by (induction stakes) (auto simp: stake_of_Cons stake_of_def)

lemma pick_env_ok:
  assumes ok: "env_ok e" and ne: "addrs \<noteq> []" and ans: "Stakes e addrs = Inr stakes"
  shows "\<exists>w. pick stakes addrs (draw e stakes) 0 = Some w"
proof -
  have a: "distinct (map fst stakes)" "list_all (\<lambda>(k, v). k \<in> set addrs \<and> 0 \<le> sint v) stakes"
    using ok ans by (auto simp: env_ok_def answer_ok_def dest: spec[of _ addrs])
  have nn: "list_all (\<lambda>a. 0 \<le> sint (stake_of stakes a)) addrs"
    using stake_of_nonneg[OF a(2)] by (simp add: list_all_iff)
  have vs: "list_all (\<lambda>v. 0 \<le> sint v) (map snd stakes)"
    using a(2) by (auto simp: list_all_iff)
  let ?S = "sum_list (map (\<lambda>a. sint (stake_of stakes a)) addrs)"
  have tot: "sint (totalStake stakes) \<le> ?S"
    using sint_sum_list_le[OF vs] sum_stakes_le[OF a] by (simp add: totalStake_def)
  have S0: "0 \<le> ?S"
    by (rule sum_list_nonneg) (use nn in \<open>auto simp: list_all_iff\<close>)
  have "0 \<le> sint (draw e stakes) \<and> sint (draw e stakes) \<le> ?S"
  proof (cases "0 < sint (totalStake stakes)")
    case True
    then have "0 \<le> sint (Int63n e (totalStake stakes)) \<and>
        sint (Int63n e (totalStake stakes)) < sint (totalStake stakes)"
      using ok by (simp add: env_ok_def)
    then show ?thesis using True tot by (simp add: draw_def)
  next
    case False
    then show ?thesis using S0 by (simp add: draw_def)
  qed
  then show ?thesis using pick_exists[OF ne nn] by blast
qed

lemma stake_of_all_zero:
  "list_all (\<lambda>(a, v). v = 0) stakes \<Longrightarrow> stake_of stakes a = 0"
  by (induction stakes) (auto simp: stake_of_def split: option.splits)

lemma totalStake_all_zero:
  "list_all (\<lambda>(a, v). v = 0) stakes \<Longrightarrow> totalStake stakes = 0"
  by (induction stakes) (auto simp: totalStake_def)

section \<open>Calls and runs\<close>

lemma f64_le_not_gt: "f64_le a b \<Longrightarrow> \<not> f64_gt a b"
  by (simp add: f64_le_def f64_gt_def)

lemma Peek_Some: "Peek h = Some m \<Longrightarrow> h \<noteq> [] \<and> m = h ! 0"
  by (auto simp: Peek_def Len_def split: if_splits)

lemma Select_conserves:
  assumes "MinLSSelector_Select e s = Inr (r, s', c)"
  shows "mset (unknownSessions s') + mset (knownSessions s') + mset (returned r)
           = mset (unknownSessions s) + mset (knownSessions s)"
    and "stakeRdr s' = stakeRdr s" and "minLS s' = minLS s"
proof -
  have "mset (unknownSessions s') + mset (knownSessions s') + mset (returned r)
           = mset (unknownSessions s) + mset (knownSessions s)
        \<and> stakeRdr s' = stakeRdr s \<and> minLS s' = minLS s"
  proof (cases "takes_unknown_path s")
    case True
    then have "selectUnknownSession e s = (r, s', c)"
      using assms Select_unknown[OF True, of e] by simp
    then show ?thesis using sus_props[of e s r s' c] by (simp add: add.commute add.left_commute)
  next
    case False
    let ?h = "knownSessions s"
    let ?h' = "take (length ?h - 1) (down (Swap ?h 0 (length ?h - 1)) 0 (length ?h - 1))"
    have ne: "?h \<noteq> []" using not_unknown_path[OF False] by simp
    have eq: "r = Some (?h ! 0)" "s' = s\<lparr>knownSessions := ?h'\<rparr>"
      using assms Select_known[OF False, of e] by simp_all
    have "mset ?h' + {#?h ! 0#} = mset ?h"
      by (rule heap_Pop_mset(2)[OF ne heap_Pop_eq[OF ne]])
    then show ?thesis using eq by (simp add: add.commute add.left_commute)
  qed
  then show "mset (unknownSessions s') + mset (knownSessions s') + mset (returned r)
           = mset (unknownSessions s) + mset (knownSessions s)"
    and "stakeRdr s' = stakeRdr s" and "minLS s' = minLS s" by simp_all
qed

lemma Select_Size:
  assumes "MinLSSelector_Select e s = Inr (r, s', c)"
  shows "MinLSSelector_Size s' + length (returned r) = MinLSSelector_Size s"
proof -
  have "size (mset (unknownSessions s') + mset (knownSessions s') + mset (returned r))
      = size (mset (unknownSessions s) + mset (knownSessions s))"
    using Select_conserves(1)[OF assms] by simp
  then show ?thesis by (simp add: MinLSSelector_Size_def Len_def)
qed

lemma Select_Some_env_ok:
  assumes ok: "env_ok e" and sz: "0 < MinLSSelector_Size s"
  shows "\<exists>x s' c. MinLSSelector_Select e s = Inr (Some x, s', c)"
proof (cases "takes_unknown_path s")
  case False
  then show ?thesis using Select_known[OF False, of e] by blast
next
  case True
  have ne: "unknownSessions s \<noteq> []"
    using True sz
    by (auto simp: takes_unknown_path_def Peek_def MinLSSelector_Size_def Len_def
        split: if_splits)
  show ?thesis
  proof (cases "stakeRdr s")
    case False
    obtain x xs where "unknownSessions s = x # xs" using ne by (cases "unknownSessions s") auto
    then show ?thesis using Select_unknown[OF True, of e] sus_offline[OF _ False] by simp
  next
    case rdr: True
    let ?a = "addrs_of (unknownSessions s)"
    have ane: "?a \<noteq> []" using ne by (simp add: addrs_of_def)
    obtain stakes where ans: "Stakes e ?a = Inr stakes"
      using ok by (cases "Stakes e ?a") (auto simp: env_ok_def answer_ok_def dest: spec[of _ ?a])
    obtain w where "pick stakes ?a (draw e stakes) 0 = Some w"
      using pick_env_ok[OF ok ane ans] by blast
    then show ?thesis using Select_unknown[OF True, of e] sus_oracle[OF ne rdr ans] by simp
  qed
qed

lemma drain_all:
  "\<forall>e\<in>set es. env_ok e \<Longrightarrow> MinLSSelector_Size s \<le> length es \<Longrightarrow>
   \<exists>out s'. drain es s = Inr (out, s') \<and> MinLSSelector_Size s' = 0 \<and>
     mset out = mset (unknownSessions s) + mset (knownSessions s)"
proof (induction es arbitrary: s)
  case Nil
  then show ?case by (simp add: MinLSSelector_Size_def Len_def)
next
  case (Cons e es)
  show ?case
  proof (cases "MinLSSelector_Size s = 0")
    case True
    then show ?thesis by (simp add: MinLSSelector_Size_def Len_def)
  next
    case False
    then obtain x s' c where sel: "MinLSSelector_Select e s = Inr (Some x, s', c)"
      using Select_Some_env_ok[of e s] Cons.prems(1) by auto
    have sz: "MinLSSelector_Size s' + 1 = MinLSSelector_Size s"
      using Select_Size[OF sel] by simp
    then obtain out s'' where d: "drain es s' = Inr (out, s'')" "MinLSSelector_Size s'' = 0"
        "mset out = mset (unknownSessions s') + mset (knownSessions s')"
      using Cons.IH[of s'] Cons.prems by auto
    have "mset (x # out) = mset (unknownSessions s) + mset (knownSessions s)"
      using Select_conserves(1)[OF sel] d(3) by simp
    then show ?thesis using False sel d by simp
  qed
qed

lemma drain_offline:
  "knownSessions s = [] \<Longrightarrow> \<not> stakeRdr s \<Longrightarrow> length (unknownSessions s) \<le> length es \<Longrightarrow>
   drain es s = Inr (unknownSessions s, s\<lparr>unknownSessions := []\<rparr>)"
proof (induction es arbitrary: s)
  case Nil
  then show ?case by simp
next
  case (Cons e es)
  show ?case
  proof (cases "unknownSessions s")
    case Nil
    then show ?thesis using Cons.prems by (simp add: MinLSSelector_Size_def Len_def)
  next
    case (Cons x xs)
    have p: "takes_unknown_path s" using Cons.prems(1) by (simp add: takes_unknown_path_def Peek_def Len_def)
    have sel: "MinLSSelector_Select e s = Inr (Some x, s\<lparr>unknownSessions := xs\<rparr>, [])"
      using Select_unknown[OF p, of e] sus_offline[OF Cons Cons.prems(2)] by simp
    have "drain es (s\<lparr>unknownSessions := xs\<rparr>) = Inr (xs, s\<lparr>unknownSessions := xs, unknownSessions := []\<rparr>)"
      using Cons.IH[of "s\<lparr>unknownSessions := xs\<rparr>"] Cons.prems Cons by simp
    then show ?thesis using sel Cons by (simp add: MinLSSelector_Size_def)
  qed
qed

lemma run_offline_FIFO:
  "list_all is_add_or_select ops \<Longrightarrow> \<not> stakeRdr s \<Longrightarrow> knownSessions s = [] \<Longrightarrow>
   run ops s = Inr (outs, s') \<Longrightarrow>
   outs @ unknownSessions s' = unknownSessions s @ passed ops \<and> knownSessions s' = [] \<and>
   \<not> stakeRdr s'"
proof (induction ops arbitrary: s outs)
  case Nil
  then show ?case by simp
next
  case (Cons c cs)
  show ?case
  proof (cases c)
    case (OpAdd sessions)
    let ?s1 = "MinLSSelector_Add sessions s"
    obtain out where rn: "run cs ?s1 = Inr (out, s')" and o: "outs = out"
      using Cons.prems(4) OpAdd by (auto split: sum.splits)
    have "out @ unknownSessions s' = unknownSessions ?s1 @ passed cs \<and> knownSessions s' = [] \<and>
        \<not> stakeRdr s'"
      by (rule Cons.IH[OF _ _ _ rn]) (use Cons.prems in \<open>simp_all add: MinLSSelector_Add_def\<close>)
    then show ?thesis using o OpAdd by (simp add: MinLSSelector_Add_def)
  next
    case (OpSelect e)
    have p: "takes_unknown_path s"
      using Cons.prems(3) by (simp add: takes_unknown_path_def Peek_def Len_def)
    show ?thesis
    proof (cases "unknownSessions s")
      case Nil
      have sel: "MinLSSelector_Select e s = Inr (None, s, [])"
        using Select_unknown[OF p, of e] sus_empty[OF Nil] by simp
      then obtain out where rn: "run cs s = Inr (out, s')" and o: "outs = out"
        using Cons.prems(4) OpSelect by (auto split: sum.splits)
      have "out @ unknownSessions s' = unknownSessions s @ passed cs \<and> knownSessions s' = [] \<and>
          \<not> stakeRdr s'"
        by (rule Cons.IH[OF _ _ _ rn]) (use Cons.prems in simp_all)
      then show ?thesis using o OpSelect by simp
    next
      case (Cons x xs)
      let ?s1 = "s\<lparr>unknownSessions := xs\<rparr>"
      have sel: "MinLSSelector_Select e s = Inr (Some x, ?s1, [])"
        using Select_unknown[OF p, of e] sus_offline[OF Cons Cons.prems(2)] by simp
      then obtain out where rn: "run cs ?s1 = Inr (out, s')" and o: "outs = x # out"
        using Cons.prems(4) OpSelect by (auto split: sum.splits)
      have "out @ unknownSessions s' = unknownSessions ?s1 @ passed cs \<and> knownSessions s' = [] \<and>
          \<not> stakeRdr s'"
        by (rule Cons.IH[OF _ _ _ rn]) (use Cons.prems in simp_all)
      then show ?thesis using o OpSelect Cons by simp
    qed
  next
    case (OpComplete sess)
    then show ?thesis using Cons.prems(1) by simp
  next
    case OpClear
    then show ?thesis using Cons.prems(1) by simp
  qed
qed

lemma run_feed:
  "list_all is_feed ops \<Longrightarrow>
   \<exists>s'. run ops s = Inr ([], s') \<and>
     mset (unknownSessions s') + mset (knownSessions s')
       = mset (unknownSessions s) + mset (knownSessions s) + mset (passed ops)"
proof (induction ops arbitrary: s)
  case Nil
  then show ?case by simp
next
  case (Cons c cs)
  show ?case
  proof (cases c)
    case (OpAdd sessions)
    obtain s' where "run cs (MinLSSelector_Add sessions s) = Inr ([], s')"
      "mset (unknownSessions s') + mset (knownSessions s')
        = mset (unknownSessions (MinLSSelector_Add sessions s))
          + mset (knownSessions (MinLSSelector_Add sessions s)) + mset (passed cs)"
      using Cons.IH[of "MinLSSelector_Add sessions s"] Cons.prems by auto
    then show ?thesis using OpAdd by (simp add: MinLSSelector_Add_def)
  next
    case (OpComplete sess)
    obtain s' where "run cs (MinLSSelector_Complete sess s) = Inr ([], s')"
      "mset (unknownSessions s') + mset (knownSessions s')
        = mset (unknownSessions (MinLSSelector_Complete sess s))
          + mset (knownSessions (MinLSSelector_Complete sess s)) + mset (passed cs)"
      using Cons.IH[of "MinLSSelector_Complete sess s"] Cons.prems by auto
    then show ?thesis using OpComplete by (simp add: MinLSSelector_Complete_def mset_heap_Push)
  next
    case (OpSelect e)
    then show ?thesis using Cons.prems by simp
  next
    case OpClear
    then show ?thesis using Cons.prems by simp
  qed
qed

lemma New_empty:
  "unknownSessions (NewMinLSSelector rdr T) = [] \<and> knownSessions (NewMinLSSelector rdr T) = []"
  by (simp add: NewMinLSSelector_def heap_Init_def Len_def)

lemma step_heap_ok:
  assumes "heap_ok (knownSessions s)" and "scored_ok c" and "step c s = Inr (r, s')"
  shows "heap_ok (knownSessions s')"
proof (cases c)
  case (OpAdd sessions)
  then show ?thesis using assms by (auto simp: MinLSSelector_Add_def)
next
  case (OpComplete sess)
  then show ?thesis using assms heap_ok_Push by (auto simp: MinLSSelector_Complete_def)
next
  case (OpSelect e)
  then obtain c' where sel: "MinLSSelector_Select e s = Inr (r, s', c')"
    using assms(3) by (auto split: sum.splits)
  show ?thesis
  proof (cases "takes_unknown_path s")
    case True
    then have "selectUnknownSession e s = (r, s', c')"
      using sel Select_unknown[OF True, of e] by simp
    then show ?thesis using sus_props[of e s r s' c'] assms(1) by simp
  next
    case False
    let ?h = "knownSessions s"
    have ne: "?h \<noteq> []" using not_unknown_path[OF False] by simp
    have "heap_ok (take (length ?h - 1) (down (Swap ?h 0 (length ?h - 1)) 0 (length ?h - 1)))"
      by (rule heap_ok_Pop[OF assms(1) ne heap_Pop_eq[OF ne]])
    then show ?thesis using sel Select_known[OF False, of e] by auto
  qed
next
  case OpClear
  then show ?thesis using assms by (auto simp: MinLSSelector_Clear_def heap_ok_def nan_free_def)
qed

lemma run_heap_ok:
  "heap_ok (knownSessions s) \<Longrightarrow> list_all scored_ok ops \<Longrightarrow> run ops s = Inr (outs, s') \<Longrightarrow>
   heap_ok (knownSessions s')"
proof (induction ops arbitrary: s outs)
  case Nil
  then show ?case by simp
next
  case (Cons c cs)
  from Cons.prems(3) obtain r s1 out where
    st: "step c s = Inr (r, s1)" and rn: "run cs s1 = Inr (out, s')"
    by (auto split: sum.splits)
  have "heap_ok (knownSessions s1)" using step_heap_ok[OF Cons.prems(1) _ st] Cons.prems(2) by simp
  then show ?case using Cons.IH[OF _ _ rn] Cons.prems(2) by simp
qed

lemma step_keeps:
  assumes "a \<in> set (knownSessions s)" and "\<not> is_clear c" and "step c s = Inr (r, s')"
  shows "a \<in> set (returned r) \<or> a \<in> set (knownSessions s')"
proof (cases c)
  case (OpAdd sessions)
  then show ?thesis using assms by (auto simp: MinLSSelector_Add_def)
next
  case (OpComplete sess)
  have "mset (heap_Push (knownSessions s) sess) = mset (sess # knownSessions s)"
    by (simp add: mset_heap_Push)
  then have "set (heap_Push (knownSessions s) sess) = set (sess # knownSessions s)"
    by (rule mset_eq_setD)
  then show ?thesis using OpComplete assms by (auto simp: MinLSSelector_Complete_def)
next
  case (OpSelect e)
  then obtain c' where sel: "MinLSSelector_Select e s = Inr (r, s', c')"
    using assms(3) by (auto split: sum.splits)
  show ?thesis
  proof (cases "takes_unknown_path s")
    case True
    then have "selectUnknownSession e s = (r, s', c')"
      using sel Select_unknown[OF True, of e] by simp
    then show ?thesis using sus_props[of e s r s' c'] assms(1) by simp
  next
    case False
    let ?h = "knownSessions s"
    let ?h' = "take (length ?h - 1) (down (Swap ?h 0 (length ?h - 1)) 0 (length ?h - 1))"
    have ne: "?h \<noteq> []" using not_unknown_path[OF False] by simp
    have "mset ?h' + {#?h ! 0#} = mset ?h"
      by (rule heap_Pop_mset(2)[OF ne heap_Pop_eq[OF ne]])
    then have "mset ?h = mset (?h ! 0 # ?h')" by simp
    then have "set ?h = set (?h ! 0 # ?h')" by (rule mset_eq_setD)
    then show ?thesis using sel Select_known[OF False, of e] assms(1) by auto
  qed
next
  case OpClear
  then show ?thesis using assms by simp
qed

lemma run_keeps:
  "a \<in> set (knownSessions s) \<Longrightarrow> \<not> list_ex is_clear ops \<Longrightarrow> run ops s = Inr (outs, s') \<Longrightarrow>
   a \<in> set outs \<or> a \<in> set (knownSessions s')"
proof (induction ops arbitrary: s outs)
  case Nil
  then show ?case by simp
next
  case (Cons c cs)
  from Cons.prems(3) obtain r s1 out where
    st: "step c s = Inr (r, s1)" and rn: "run cs s1 = Inr (out, s')"
    and outs: "outs = returned r @ out"
    by (auto split: sum.splits)
  have "a \<in> set (returned r) \<or> a \<in> set (knownSessions s1)"
    using step_keeps[OF Cons.prems(1) _ st] Cons.prems(2) by simp
  then show ?case using Cons.IH[OF _ _ rn] Cons.prems(2) outs by auto
qed

section \<open>The heap path of Select\<close>

text \<open>
  What \<^verbatim>\<open>Select\<close> does with the entry \<open>m\<close> that \<^verbatim>\<open>Peek\<close> shows, the root of the heap, and the
  threshold \<open>T = minLS\<close>. If the score of \<open>m\<close> is \<open>> T\<close> and an unscored session exists,
  \<^verbatim>\<open>Select\<close> is the unscored selection: the heap is left as it is, a session that is
  returned is taken out of the unscored sequence, and it is not \<open>m\<close> (unless the caller
  has put \<open>m\<close> into the unscored sequence as well). If the score of \<open>m\<close> is \<open>\<le> T\<close> or there
  is no unscored session, \<^verbatim>\<open>Select\<close> returns \<open>m\<close> and removes it from the heap.
\<close>

lemma Select_routing_on_root:
  assumes "Peek (knownSessions s) = Some m"
  shows "(f64_gt (LatencyScore m) (minLS s) \<and> unknownSessions s \<noteq> [] \<longrightarrow>
            (\<exists>r s' c. MinLSSelector_Select e s = Inr (r, s', c)
               \<and> selectUnknownSession e s = (r, s', c)
               \<and> knownSessions s' = knownSessions s
               \<and> mset (unknownSessions s') + mset (returned r) = mset (unknownSessions s)
               \<and> (\<forall>x. r = Some x \<longrightarrow> x \<in> set (unknownSessions s))
               \<and> (m \<notin> set (unknownSessions s) \<longrightarrow> r \<noteq> Some m)))
       \<and> (f64_le (LatencyScore m) (minLS s) \<or> unknownSessions s = [] \<longrightarrow>
            (\<exists>h'. MinLSSelector_Select e s = Inr (Some m, s\<lparr>knownSessions := h'\<rparr>, [])
               \<and> mset h' + {#m#} = mset (knownSessions s)))"
proof (intro conjI impI)
  assume a: "f64_gt (LatencyScore m) (minLS s) \<and> unknownSessions s \<noteq> []"
  then have p: "takes_unknown_path s" using assms by (simp add: takes_unknown_path_def)
  obtain r s' c where sus: "selectUnknownSession e s = (r, s', c)"
    by (cases "selectUnknownSession e s") auto
  have props: "knownSessions s' = knownSessions s"
     "mset (unknownSessions s') + mset (returned r) = mset (unknownSessions s)"
    using sus_props[OF sus] by auto
  have "\<forall>x. r = Some x \<longrightarrow> x \<in> set (unknownSessions s)"
  proof (intro allI impI)
    fix x assume "r = Some x"
    then have "x \<in># mset (unknownSessions s)" using props(2)
      by (metis returned.simps(2) mset.simps(1,2) union_single_eq_member add_mset_add_single)
    then show "x \<in> set (unknownSessions s)" by simp
  qed
  then show "\<exists>r s' c. MinLSSelector_Select e s = Inr (r, s', c)
               \<and> selectUnknownSession e s = (r, s', c)
               \<and> knownSessions s' = knownSessions s
               \<and> mset (unknownSessions s') + mset (returned r) = mset (unknownSessions s)
               \<and> (\<forall>x. r = Some x \<longrightarrow> x \<in> set (unknownSessions s))
               \<and> (m \<notin> set (unknownSessions s) \<longrightarrow> r \<noteq> Some m)"
    using Select_unknown[OF p, of e] sus props by auto
next
  assume a: "f64_le (LatencyScore m) (minLS s) \<or> unknownSessions s = []"
  have m: "knownSessions s \<noteq> []" "m = knownSessions s ! 0" using Peek_Some[OF assms] by auto
  have np: "\<not> takes_unknown_path s"
    using a assms f64_le_not_gt by (auto simp: takes_unknown_path_def)
  let ?h' = "take (length (knownSessions s) - 1)
               (down (Swap (knownSessions s) 0 (length (knownSessions s) - 1)) 0
                 (length (knownSessions s) - 1))"
  have sel: "MinLSSelector_Select e s = Inr (Some m, s\<lparr>knownSessions := ?h'\<rparr>, [])"
    using Select_known[OF np, of e] m by simp
  have "heap_Pop (knownSessions s) = Inr (m, ?h')" using heap_Pop_eq[OF m(1)] m(2) by simp
  then have "mset ?h' + {#m#} = mset (knownSessions s)" by (rule heap_Pop_mset(2)[OF m(1)])
  then show "\<exists>h'. MinLSSelector_Select e s = Inr (Some m, s\<lparr>knownSessions := h'\<rparr>, [])
               \<and> mset h' + {#m#} = mset (knownSessions s)"
    using sel by blast
qed

text \<open>
  Where no session has been completed with a NaN score, the heap does what its comments
  say: in a run of a new selector let \<open>a\<close> be completed and the run go on without
  \<^verbatim>\<open>Clear\<close>. Whenever \<^verbatim>\<open>Select\<close> then draws from the heap, it removes and returns the entry
  \<open>m\<close> at the root, no session of the heap scores less than \<open>m\<close>, and if \<open>a\<close> scores strictly
  less than \<open>m\<close> then \<open>a\<close> has already been returned since its completion.
\<close>

lemma Select_heap_minimum_nan_free:
  assumes "run ops0 (NewMinLSSelector rdr T) = Inr (outs0, s0)"
    and "run ops1 (MinLSSelector_Complete a s0) = Inr (outs1, s)"
    and "list_all scored_ok ops0" and "LatencyScore a \<noteq> NaN" and "list_all scored_ok ops1"
    and "\<not> list_ex is_clear ops1"
    and "\<not> takes_unknown_path s"
    and "Peek (knownSessions s) = Some m"
  shows "\<exists>h'. MinLSSelector_Select e s = Inr (Some m, s\<lparr>knownSessions := h'\<rparr>, [])
           \<and> mset h' + {#m#} = mset (knownSessions s)
           \<and> (\<forall>x\<in>set (knownSessions s). \<not> f64_lt (LatencyScore x) (LatencyScore m))
           \<and> (f64_lt (LatencyScore a) (LatencyScore m) \<longrightarrow> a \<in> set outs1)"
proof -
  let ?h = "knownSessions s"
  let ?h' = "take (length ?h - 1) (down (Swap ?h 0 (length ?h - 1)) 0 (length ?h - 1))"
  have ok0: "heap_ok (knownSessions s0)"
    using run_heap_ok[OF _ assms(3,1)] New_empty[of rdr T] by (simp add: heap_ok_def nan_free_def)
  have "heap_ok (knownSessions (MinLSSelector_Complete a s0))"
    using heap_ok_Push[OF ok0 assms(4)] by (simp add: MinLSSelector_Complete_def)
  then have ok: "heap_ok ?h" using run_heap_ok[OF _ assms(5,2)] by simp
  have m: "?h \<noteq> []" "m = ?h ! 0" using Peek_Some[OF assms(8)] by auto
  have sel: "MinLSSelector_Select e s = Inr (Some m, s\<lparr>knownSessions := ?h'\<rparr>, [])"
    using Select_known[OF assms(7), of e] m by simp
  have ms: "mset ?h' + {#m#} = mset ?h"
    using heap_Pop_mset(2)[OF m(1) heap_Pop_eq[OF m(1)]] m(2) by simp
  have mn: "\<forall>x\<in>set ?h. \<not> f64_lt (LatencyScore x) (LatencyScore m)"
    using heap_ok_min[OF ok] m(2) by simp
  have "mset (heap_Push (knownSessions s0) a) = mset (a # knownSessions s0)"
    by (simp add: mset_heap_Push)
  then have "set (heap_Push (knownSessions s0) a) = set (a # knownSessions s0)"
    by (rule mset_eq_setD)
  then have "a \<in> set (knownSessions (MinLSSelector_Complete a s0))"
    by (simp add: MinLSSelector_Complete_def)
  then have "a \<in> set outs1 \<or> a \<in> set ?h" using run_keeps[OF _ assms(6,2)] by simp
  then have "f64_lt (LatencyScore a) (LatencyScore m) \<longrightarrow> a \<in> set outs1" using mn by auto
  then show ?thesis using sel ms mn by blast
qed

section \<open>Claims on the MinLSSelector\<close>

text \<open>
  Claim C1. If the heap is non-empty and its minimum-score entry scores \<open>> T\<close> while an
  unscored session exists, \<^verbatim>\<open>Select\<close> leaves the heap alone and draws from the unscored
  collection; if the heap is non-empty and its minimum score is \<open>\<le> T\<close> or no unscored
  session exists, \<^verbatim>\<open>Select\<close> removes and returns that minimum-score entry. The code
  decides on the root of the heap, which its comments take for the minimum, and the root
  need not be the minimum once a session has been completed with a NaN score. After
  completions scored 0, NaN, 9, 1, 5 and the \<^verbatim>\<open>Add\<close> of one session, with \<open>T = 3\<close>: the first
  \<^verbatim>\<open>Select\<close> returns the session scored 0 and leaves the heap with the root scored 5; the
  second \<^verbatim>\<open>Select\<close> returns the unscored session, although the heap holds a session
  scored \<open>1 \<le> T\<close>.
\<close>

theorem Select_skips_good_known_session_after_NaN:
  "run [OpComplete (mk_session 0 (Fin 0) []), OpComplete (mk_session 1 NaN []),
        OpComplete (mk_session 2 (Fin 9) []), OpComplete (mk_session 3 (Fin 1) []),
        OpComplete (mk_session 4 (Fin 5) []),
        OpAdd [mk_session 5 (Fin 0) []],
        OpSelect \<lparr>Stakes = (\<lambda>addrs. Inr []), Int63n = (\<lambda>n. 0)\<rparr>,
        OpSelect \<lparr>Stakes = (\<lambda>addrs. Inr []), Int63n = (\<lambda>n. 0)\<rparr>]
       (NewMinLSSelector False (Fin 3))
   = Inr ([mk_session 0 (Fin 0) [], mk_session 5 (Fin 0) []],
          \<lparr>unknownSessions = [],
           knownSessions = [mk_session 4 (Fin 5) [], mk_session 1 NaN [],
                            mk_session 2 (Fin 9) [], mk_session 3 (Fin 1) []],
           stakeRdr = False, minLS = Fin 3\<rparr>)
   \<and> f64_le (LatencyScore (mk_session 3 (Fin 1) [])) (Fin 3)"
  by (simp add: eval_heap MinLSSelector_Add_def selectUnknownSession_def f64_le_def)

text \<open>
  Claim C2, amended. After a sequence of \<^verbatim>\<open>Add\<close> and \<^verbatim>\<open>Complete\<close> calls on a new selector, if
  every oracle call during the draining succeeds and keeps the oracle's contract
  (non-negative stakes, only for addresses that were queried) and every draw lies in its
  range, then calling \<^verbatim>\<open>Select\<close> until \<^verbatim>\<open>Size() == 0\<close> ends within \<^verbatim>\<open>Size()\<close> calls and
  returns exactly the multiset of the sessions passed to \<^verbatim>\<open>Add\<close> or \<^verbatim>\<open>Complete\<close>; and, in
  any state and whatever the oracle does, a \<^verbatim>\<open>Select\<close> that returns a session decreases
  \<^verbatim>\<open>Size()\<close> by exactly one.
\<close>

theorem drain_returns_all:
  assumes "list_all is_feed ops"
    and "run ops (NewMinLSSelector rdr T) = Inr (outs, s)"
    and "\<forall>e\<in>set es. env_ok e"
    and "MinLSSelector_Size s \<le> length es"
  shows "(\<exists>out s'. drain es s = Inr (out, s') \<and> MinLSSelector_Size s' = 0 \<and>
            mset out = mset (passed ops))
       \<and> (\<forall>e s1 x s2 c. MinLSSelector_Select e s1 = Inr (Some x, s2, c) \<longrightarrow>
            MinLSSelector_Size s2 + 1 = MinLSSelector_Size s1)"
proof
  have "mset (unknownSessions s) + mset (knownSessions s) = mset (passed ops)"
    using run_feed[OF assms(1), of "NewMinLSSelector rdr T"] assms(2) New_empty[of rdr T]
    by auto
  then show "\<exists>out s'. drain es s = Inr (out, s') \<and> MinLSSelector_Size s' = 0 \<and>
            mset out = mset (passed ops)"
    using drain_all[OF assms(3,4)] by simp
  show "\<forall>e s1 x s2 c. MinLSSelector_Select e s1 = Inr (Some x, s2, c) \<longrightarrow>
            MinLSSelector_Size s2 + 1 = MinLSSelector_Size s1"
  proof (intro allI impI)
    fix e s1 x s2 c
    assume "MinLSSelector_Select e s1 = Inr (Some x, s2, c)"
    then show "MinLSSelector_Size s2 + 1 = MinLSSelector_Size s1"
      using Select_Size[of e s1 "Some x" s2 c] by simp
  qed
qed

text \<open>
  Three sessions, a stake reader that gives every queried address the stake 1, and draws
  of 0: three calls drain the pool.
\<close>

theorem drain_returns_all_witness:
  "run [OpAdd [mk_session 1 (Fin 0) [1], mk_session 2 (Fin 0) [2]], OpComplete (mk_session 3 (Fin 80) [3])]
       (NewMinLSSelector True (Fin 50))
     = Inr ([], \<lparr>unknownSessions = [mk_session 1 (Fin 0) [1], mk_session 2 (Fin 0) [2]],
                 knownSessions = [mk_session 3 (Fin 80) [3]], stakeRdr = True, minLS = Fin 50\<rparr>)
   \<and> (\<exists>out s'. drain
          [\<lparr>Stakes = (\<lambda>addrs. Inr (map (\<lambda>a. (a, 1)) (remdups addrs))), Int63n = (\<lambda>n. 0)\<rparr>,
           \<lparr>Stakes = (\<lambda>addrs. Inr (map (\<lambda>a. (a, 1)) (remdups addrs))), Int63n = (\<lambda>n. 0)\<rparr>,
           \<lparr>Stakes = (\<lambda>addrs. Inr (map (\<lambda>a. (a, 1)) (remdups addrs))), Int63n = (\<lambda>n. 0)\<rparr>]
          \<lparr>unknownSessions = [mk_session 1 (Fin 0) [1], mk_session 2 (Fin 0) [2]],
           knownSessions = [mk_session 3 (Fin 80) [3]], stakeRdr = True, minLS = Fin 50\<rparr>
        = Inr (out, s') \<and> MinLSSelector_Size s' = 0 \<and>
        mset out = {#mk_session 1 (Fin 0) [1], mk_session 2 (Fin 0) [2], mk_session 3 (Fin 80) [3]#})"
proof -
  let ?e = "\<lparr>Stakes = (\<lambda>addrs. Inr (map (\<lambda>a. (a, 1 :: int64)) (remdups addrs))), Int63n = (\<lambda>n. 0 :: int64)\<rparr>"
  let ?ops = "[OpAdd [mk_session 1 (Fin 0) [1], mk_session 2 (Fin 0) [2]], OpComplete (mk_session 3 (Fin 80) [3])]"
  let ?s = "\<lparr>unknownSessions = [mk_session 1 (Fin 0) [1], mk_session 2 (Fin 0) [2]],
           knownSessions = [mk_session 3 (Fin 80) [3]], stakeRdr = True, minLS = Fin 50\<rparr>"
  have h1: "list_all is_feed ?ops" by simp
  have h2: "run ?ops (NewMinLSSelector True (Fin 50)) = Inr ([], ?s)"
    by (simp add: eval_heap MinLSSelector_Add_def)
  have ok: "env_ok ?e"
    by (auto simp: env_ok_def answer_ok_def list_all_iff comp_def)
  have h3: "\<forall>e\<in>set [?e, ?e, ?e]. env_ok e" using ok by simp
  have h4: "MinLSSelector_Size ?s \<le> length [?e, ?e, ?e]"
    by (simp add: MinLSSelector_Size_def Len_def)
  show ?thesis
    using h2 drain_returns_all[OF h1 h2 h3 h4] by (simp add: add_mset_commute)
qed

text \<open>
  Claim C2 asks of the oracle only that it does not fail. A stake reader that answers,
  without error, with a stake of \<open>-1\<close> makes \<open>totalStake\<close> negative and the draw 0; the
  loop computes \<open>0 - (-1) = 1 > 0\<close> and ends, and \<^verbatim>\<open>Select\<close> returns nil with \<^verbatim>\<open>Size() = 1\<close>:
  the session that was added is never returned and the draining never ends.
\<close>

theorem drain_returns_all_counterexample:
  "run [OpAdd [mk_session 1 (Fin 0) [1]]] (NewMinLSSelector True (Fin 50))
     = Inr ([], \<lparr>unknownSessions = [mk_session 1 (Fin 0) [1]], knownSessions = [],
                 stakeRdr = True, minLS = Fin 50\<rparr>)
   \<and> drain [\<lparr>Stakes = (\<lambda>addrs. Inr [(BytesToAddress [1], - 1)]), Int63n = (\<lambda>n. 0)\<rparr>,
            \<lparr>Stakes = (\<lambda>addrs. Inr [(BytesToAddress [1], - 1)]), Int63n = (\<lambda>n. 0)\<rparr>,
            \<lparr>Stakes = (\<lambda>addrs. Inr [(BytesToAddress [1], - 1)]), Int63n = (\<lambda>n. 0)\<rparr>]
        \<lparr>unknownSessions = [mk_session 1 (Fin 0) [1]], knownSessions = [],
         stakeRdr = True, minLS = Fin 50\<rparr>
     = Inr ([], \<lparr>unknownSessions = [mk_session 1 (Fin 0) [1]], knownSessions = [],
                 stakeRdr = True, minLS = Fin 50\<rparr>)
   \<and> MinLSSelector_Size \<lparr>unknownSessions = [mk_session 1 (Fin 0) [1]], knownSessions = [],
         stakeRdr = True, minLS = Fin 50\<rparr> = 1"
  by (simp add: eval_heap MinLSSelector_Add_def MinLSSelector_Size_def selectUnknownSession_def
      stake_of_def)

text \<open>
  Claim C3, amended. With a stake reader configured, a non-empty unscored sequence, the
  unscored path taken and an answer \<open>stakes\<close> of the reader: the draw \<open>r\<close> is
  \<^verbatim>\<open>rand.Int63n(totalStake)\<close> when \<open>totalStake > 0\<close>, an integer of \<open>[0, totalStake)\<close> by that
  function's contract (which also makes it uniform), and 0 otherwise; the session
  returned is the first one, in the current order of the unscored sequence, at which \<open>r\<close>
  minus the running sum of the sessions' stakes is \<open>\<le> 0\<close>; it is removed by the swap
  with the last element and the truncation, which leaves the other sessions, permuted;
  if no session reaches \<open>\<le> 0\<close> nothing is returned and nothing changes; and when all
  stakes of the answer are zero the session at the front of the current sequence is
  returned.
\<close>

theorem Select_stake_weighted:
  assumes path: "takes_unknown_path s" and rdr: "stakeRdr s" and ne: "unknownSessions s \<noteq> []"
    and ans: "Stakes e (addrs_of (unknownSessions s)) = Inr stakes"
  shows "(0 < sint (totalStake stakes) \<longrightarrow> draw e stakes = Int63n e (totalStake stakes))
       \<and> (\<not> 0 < sint (totalStake stakes) \<longrightarrow> draw e stakes = 0)
       \<and> ((\<forall>n. 0 < sint n \<longrightarrow> 0 \<le> sint (Int63n e n) \<and> sint (Int63n e n) < sint n) \<longrightarrow>
            0 < sint (totalStake stakes) \<longrightarrow>
            0 \<le> sint (draw e stakes) \<and> sint (draw e stakes) < sint (totalStake stakes))
       \<and> (\<forall>w<length (unknownSessions s).
             sint (running stakes (addrs_of (unknownSessions s)) (draw e stakes) w) \<le> 0 \<and>
             (\<forall>k<w. \<not> sint (running stakes (addrs_of (unknownSessions s)) (draw e stakes) k) \<le> 0) \<longrightarrow>
             MinLSSelector_Select e s =
               Inr (Some (unknownSessions s ! w),
                    s\<lparr>unknownSessions := swap_remove (unknownSessions s) w\<rparr>,
                    [addrs_of (unknownSessions s)]) \<and>
             mset (swap_remove (unknownSessions s) w) + {#unknownSessions s ! w#}
               = mset (unknownSessions s))
       \<and> ((\<forall>k<length (unknownSessions s).
              \<not> sint (running stakes (addrs_of (unknownSessions s)) (draw e stakes) k) \<le> 0) \<longrightarrow>
            MinLSSelector_Select e s = Inr (None, s, [addrs_of (unknownSessions s)]))
       \<and> (list_all (\<lambda>(a, v). v = 0) stakes \<longrightarrow>
            MinLSSelector_Select e s =
              Inr (Some (unknownSessions s ! 0),
                   s\<lparr>unknownSessions := swap_remove (unknownSessions s) 0\<rparr>,
                   [addrs_of (unknownSessions s)]))"
proof -
  let ?u = "unknownSessions s"
  let ?a = "addrs_of ?u"
  let ?r = "draw e stakes"
  have len: "length ?a = length ?u" by (simp add: addrs_of_def)
  have sel: "MinLSSelector_Select e s =
      Inr (case pick stakes ?a ?r 0 of
             None \<Rightarrow> (None, s, [?a])
           | Some i \<Rightarrow> (Some (?u ! i), s\<lparr>unknownSessions := swap_remove ?u i\<rparr>, [?a]))"
    using Select_unknown[OF path, of e] sus_oracle[OF ne rdr ans] by simp
  have win: "MinLSSelector_Select e s = Inr (Some (?u ! w), s\<lparr>unknownSessions := swap_remove ?u w\<rparr>, [?a])"
    if "w < length ?u" "sint (running stakes ?a ?r w) \<le> 0"
       "\<forall>k<w. \<not> sint (running stakes ?a ?r k) \<le> 0" for w
  proof -
    have "pick stakes ?a ?r 0 = Some (0 + w)"
      by (rule pick_first) (use that len in simp_all)
    then show ?thesis using sel by simp
  qed
  have none: "MinLSSelector_Select e s = Inr (None, s, [?a])"
    if "\<forall>k<length ?u. \<not> sint (running stakes ?a ?r k) \<le> 0"
  proof -
    have "pick stakes ?a ?r 0 = None"
      by (rule pick_none) (use that len in simp)
    then show ?thesis using sel by simp
  qed
  have zero: "MinLSSelector_Select e s = Inr (Some (?u ! 0), s\<lparr>unknownSessions := swap_remove ?u 0\<rparr>, [?a])"
    if z: "list_all (\<lambda>(a, v). v = 0) stakes"
  proof -
    have "?r = 0" using totalStake_all_zero[OF z] by (simp add: draw_def)
    moreover obtain a as where "?a = a # as" using ne len by (cases ?a) auto
    ultimately have "sint (running stakes ?a ?r 0) \<le> 0"
      using stake_of_all_zero[OF z] by (simp add: running_Cons_0)
    then show ?thesis using win[of 0] ne by simp
  qed
  have range: "0 \<le> sint ?r \<and> sint ?r < sint (totalStake stakes)"
    if "\<forall>n. 0 < sint n \<longrightarrow> 0 \<le> sint (Int63n e n) \<and> sint (Int63n e n) < sint n"
      and "0 < sint (totalStake stakes)"
    using that by (simp add: draw_def)
  have d: "(0 < sint (totalStake stakes) \<longrightarrow> ?r = Int63n e (totalStake stakes))
      \<and> (\<not> 0 < sint (totalStake stakes) \<longrightarrow> ?r = 0)"
    by (simp add: draw_def)
  show ?thesis
    using d range win none zero mset_swap_remove[of _ ?u] by blast
qed

text \<open>
  Two sessions with stakes 3 and 5 and the draw 4: the first session leaves \<open>1 > 0\<close>, the
  second wins.
\<close>

theorem Select_stake_weighted_witness:
  "MinLSSelector_Select
     \<lparr>Stakes = (\<lambda>addrs. Inr [(BytesToAddress [1], 3), (BytesToAddress [2], 5)]), Int63n = (\<lambda>n. 4)\<rparr>
     \<lparr>unknownSessions = [mk_session 1 (Fin 0) [1], mk_session 2 (Fin 0) [2]], knownSessions = [],
      stakeRdr = True, minLS = Fin 50\<rparr>
   = Inr (Some (mk_session 2 (Fin 0) [2]),
          \<lparr>unknownSessions = [mk_session 1 (Fin 0) [1]], knownSessions = [],
           stakeRdr = True, minLS = Fin 50\<rparr>,
          [[BytesToAddress [1], BytesToAddress [2]]])"
proof -
  let ?e = "\<lparr>Stakes = (\<lambda>addrs. Inr [(BytesToAddress [1], 3), (BytesToAddress [2], 5)]), Int63n = (\<lambda>n. 4)\<rparr>"
  let ?s = "\<lparr>unknownSessions = [mk_session 1 (Fin 0) [1], mk_session 2 (Fin 0) [2]], knownSessions = [],
      stakeRdr = True, minLS = Fin 50\<rparr>"
  let ?st = "[(BytesToAddress [1], 3), (BytesToAddress [2], 5 :: int64)]"
  have h1: "takes_unknown_path ?s" by (simp add: takes_unknown_path_def Peek_def Len_def)
  have h2: "stakeRdr ?s" by simp
  have h3: "unknownSessions ?s \<noteq> []" by simp
  have h4: "Stakes ?e (addrs_of (unknownSessions ?s)) = Inr ?st" by simp
  have d: "draw ?e ?st = 4" by (simp add: draw_def totalStake_def)
  have ne: "BytesToAddress [1] \<noteq> BytesToAddress [2]"
    by (simp add: BytesToAddress_def AddressLength_def)
  have r0: "\<not> sint (running ?st (addrs_of (unknownSessions ?s)) (draw ?e ?st) 0) \<le> 0"
    using ne by (simp add: d running_def addrs_of_def stake_of_def mk_session_def)
  have r1: "sint (running ?st (addrs_of (unknownSessions ?s)) (draw ?e ?st) 1) \<le> 0"
    using ne by (simp add: d running_def addrs_of_def stake_of_def mk_session_def)
  have "MinLSSelector_Select ?e ?s =
               Inr (Some (unknownSessions ?s ! 1),
                    ?s\<lparr>unknownSessions := swap_remove (unknownSessions ?s) 1\<rparr>,
                    [addrs_of (unknownSessions ?s)])"
    using Select_stake_weighted[OF h1 h2 h3 h4] r0 r1 by (simp add: less_Suc_eq)
  then show ?thesis by (simp add: swap_remove_def addrs_of_def mk_session_def)
qed

text \<open>
  Claim C3 says that with all stakes zero the first session in arrival order is always
  returned. The removal by swap moves the last session to the front: after \<^verbatim>\<open>Add\<close> of
  \<open>A\<close>, \<open>B\<close> and \<open>C\<close> and a stake reader that gives every address the stake 0, the first
  \<^verbatim>\<open>Select\<close> returns \<open>A\<close> and the second returns \<open>C\<close>, while \<open>B\<close>, which arrived before \<open>C\<close>,
  waits.
\<close>

theorem Select_zero_stakes_arrival_order_counterexample:
  "run [OpAdd [mk_session 1 (Fin 0) [1]], OpAdd [mk_session 2 (Fin 0) [2]],
        OpAdd [mk_session 3 (Fin 0) [3]],
        OpSelect \<lparr>Stakes = (\<lambda>addrs. Inr (map (\<lambda>a. (a, 0)) (remdups addrs))), Int63n = (\<lambda>n. 0)\<rparr>,
        OpSelect \<lparr>Stakes = (\<lambda>addrs. Inr (map (\<lambda>a. (a, 0)) (remdups addrs))), Int63n = (\<lambda>n. 0)\<rparr>]
       (NewMinLSSelector True (Fin 50))
   = Inr ([mk_session 1 (Fin 0) [1], mk_session 3 (Fin 0) [3]],
          \<lparr>unknownSessions = [mk_session 2 (Fin 0) [2]], knownSessions = [],
           stakeRdr = True, minLS = Fin 50\<rparr>)"
  by (simp add: eval_heap MinLSSelector_Add_def selectUnknownSession_def stake_of_def
      BytesToAddress_def AddressLength_def)

text \<open>
  Claim C4. If \<^verbatim>\<open>Select\<close> takes the unscored path with a stake reader configured and
  \<^verbatim>\<open>Stakes\<close> returns an error, then \<^verbatim>\<open>Select\<close> returns nil and the selector after the call is
  the selector before it: same unscored sequence, same heap, same \<^verbatim>\<open>Size()\<close>. A second
  \<^verbatim>\<open>Select\<close> therefore starts from the very same state.
\<close>

theorem Select_oracle_error_unchanged:
  assumes "takes_unknown_path s" and "stakeRdr s" and "unknownSessions s \<noteq> []"
    and "Stakes e (addrs_of (unknownSessions s)) = Inl err"
  shows "MinLSSelector_Select e s = Inr (None, s, [addrs_of (unknownSessions s)])"
  using Select_unknown[OF assms(1), of e] sus_error[OF assms(3,2,4)] by simp

text \<open>The statement at a selector with one unscored session and a failing stake reader.\<close>

theorem Select_oracle_error_unchanged_witness:
  "takes_unknown_path \<lparr>unknownSessions = [mk_session 1 (Fin 0) [1]], knownSessions = [],
       stakeRdr = True, minLS = Fin 50\<rparr>
   \<and> MinLSSelector_Select \<lparr>Stakes = (\<lambda>addrs. Inl ''unavailable''), Int63n = (\<lambda>n. 0)\<rparr>
       \<lparr>unknownSessions = [mk_session 1 (Fin 0) [1]], knownSessions = [],
        stakeRdr = True, minLS = Fin 50\<rparr>
     = Inr (None,
            \<lparr>unknownSessions = [mk_session 1 (Fin 0) [1]], knownSessions = [],
             stakeRdr = True, minLS = Fin 50\<rparr>,
            [[BytesToAddress [1]]])"
proof -
  let ?e = "\<lparr>Stakes = (\<lambda>addrs. Inl ''unavailable''), Int63n = (\<lambda>n. 0)\<rparr>"
  let ?s = "\<lparr>unknownSessions = [mk_session 1 (Fin 0) [1]], knownSessions = [],
       stakeRdr = True, minLS = Fin 50\<rparr>"
  have h1: "takes_unknown_path ?s" by (simp add: takes_unknown_path_def Peek_def Len_def)
  have h2: "stakeRdr ?s" by simp
  have h3: "unknownSessions ?s \<noteq> []" by simp
  have h4: "Stakes ?e (addrs_of (unknownSessions ?s)) = Inl ''unavailable''" by simp
  show ?thesis using h1 Select_oracle_error_unchanged[OF h1 h2 h3 h4]
    by (simp add: addrs_of_def mk_session_def)
qed

text \<open>
  Claim C6, amended. With a stake reader configured and a non-empty unscored sequence, a
  \<^verbatim>\<open>Select\<close> that takes the unscored path calls \<^verbatim>\<open>Stakes\<close> exactly once, and the argument is
  the sequence of the stake addresses of the unscored sessions, one entry per session in
  sequence order (an address shared by several sessions is repeated).
\<close>

theorem Select_queries_all_addresses:
  assumes "takes_unknown_path s" and "stakeRdr s" and "unknownSessions s \<noteq> []"
  shows "\<exists>r s'. MinLSSelector_Select e s = Inr (r, s', [addrs_of (unknownSessions s)])"
proof (cases "Stakes e (addrs_of (unknownSessions s))")
  case (Inl err)
  then show ?thesis using Select_unknown[OF assms(1), of e] sus_error[OF assms(3,2) Inl] by simp
next
  case (Inr stakes)
  show ?thesis using Select_unknown[OF assms(1), of e] sus_oracle[OF assms(3,2) Inr]
    by (auto split: option.splits)
qed

text \<open>The statement at the selector of the counterexample.\<close>

theorem Select_queries_all_addresses_witness:
  "takes_unknown_path \<lparr>unknownSessions = [mk_session 1 (Fin 0) [7], mk_session 2 (Fin 0) [7]], knownSessions = [],
        stakeRdr = True, minLS = Fin 50\<rparr>
   \<and> (\<exists>r s'. MinLSSelector_Select \<lparr>Stakes = (\<lambda>addrs. Inr []), Int63n = (\<lambda>n. 0)\<rparr>
       \<lparr>unknownSessions = [mk_session 1 (Fin 0) [7], mk_session 2 (Fin 0) [7]], knownSessions = [],
        stakeRdr = True, minLS = Fin 50\<rparr>
     = Inr (r, s', [[BytesToAddress [7], BytesToAddress [7]]]))"
proof -
  let ?s = "\<lparr>unknownSessions = [mk_session 1 (Fin 0) [7], mk_session 2 (Fin 0) [7]], knownSessions = [],
        stakeRdr = True, minLS = Fin 50\<rparr>"
  have h1: "takes_unknown_path ?s" by (simp add: takes_unknown_path_def Peek_def Len_def)
  have h2: "stakeRdr ?s" by simp
  have h3: "unknownSessions ?s \<noteq> []" by simp
  show ?thesis
    using h1 Select_queries_all_addresses[OF h1 h2 h3, of "\<lparr>Stakes = (\<lambda>addrs. Inr []), Int63n = (\<lambda>n. 0)\<rparr>"]
    by (simp add: addrs_of_def mk_session_def)
qed

text \<open>
  Claim C6 says the argument of \<^verbatim>\<open>Stakes\<close> holds each distinct address once. With two
  unscored sessions of the same recipient the one call gets that address twice.
\<close>

theorem Select_deduplicated_addresses_counterexample:
  "MinLSSelector_Select \<lparr>Stakes = (\<lambda>addrs. Inr []), Int63n = (\<lambda>n. 0)\<rparr>
       \<lparr>unknownSessions = [mk_session 1 (Fin 0) [7], mk_session 2 (Fin 0) [7]], knownSessions = [],
        stakeRdr = True, minLS = Fin 50\<rparr>
     = Inr (Some (mk_session 1 (Fin 0) [7]),
            \<lparr>unknownSessions = [mk_session 2 (Fin 0) [7]], knownSessions = [],
             stakeRdr = True, minLS = Fin 50\<rparr>,
            [[BytesToAddress [7], BytesToAddress [7]]])
   \<and> \<not> distinct [BytesToAddress [7], BytesToAddress [7]]"
  by (simp add: MinLSSelector_Select_def Peek_def Len_def selectUnknownSession_def
      mk_session_def stake_of_def Let_def)

text \<open>
  Claim C7. On a selector without a stake reader, a \<^verbatim>\<open>Select\<close> that goes to the unscored
  collection removes and returns the first element of the unscored sequence, whatever the
  environment answers. And on a new selector built without a stake reader that is fed by
  \<^verbatim>\<open>Add\<close> calls only, with \<^verbatim>\<open>Select\<close> calls in between or not: the sessions the \<^verbatim>\<open>Select\<close>
  calls of the run returned, followed by those a draining returns, are exactly the
  sessions passed to \<^verbatim>\<open>Add\<close>, in their order of arrival.
\<close>

theorem Select_offline_FIFO:
  assumes "list_all is_add_or_select ops"
    and "run ops (NewMinLSSelector False T) = Inr (outs, s)"
    and "length (unknownSessions s) \<le> length es"
  shows "(\<forall>s1 e x xs. \<not> stakeRdr s1 \<and> takes_unknown_path s1 \<and> unknownSessions s1 = x # xs \<longrightarrow>
            MinLSSelector_Select e s1 = Inr (Some x, s1\<lparr>unknownSessions := xs\<rparr>, []))
       \<and> (\<exists>rest s'. drain es s = Inr (rest, s') \<and> MinLSSelector_Size s' = 0 \<and>
            outs @ rest = passed ops)"
proof
  show "\<forall>s1 e x xs. \<not> stakeRdr s1 \<and> takes_unknown_path s1 \<and> unknownSessions s1 = x # xs \<longrightarrow>
            MinLSSelector_Select e s1 = Inr (Some x, s1\<lparr>unknownSessions := xs\<rparr>, [])"
    using Select_unknown sus_offline by simp
  have new: "\<not> stakeRdr (NewMinLSSelector False T)" "knownSessions (NewMinLSSelector False T) = []"
    "unknownSessions (NewMinLSSelector False T) = []"
    using New_empty[of False T] by (simp_all add: NewMinLSSelector_def)
  have r: "outs @ unknownSessions s = passed ops" "knownSessions s = []" "\<not> stakeRdr s"
    using run_offline_FIFO[OF assms(1) new(1,2) assms(2)] new(3) by simp_all
  have d: "drain es s = Inr (unknownSessions s, s\<lparr>unknownSessions := []\<rparr>)"
    by (rule drain_offline[OF r(2,3) assms(3)])
  have "MinLSSelector_Size (s\<lparr>unknownSessions := []\<rparr>) = 0"
    using r(2) by (simp add: MinLSSelector_Size_def Len_def)
  then show "\<exists>rest s'. drain es s = Inr (rest, s') \<and> MinLSSelector_Size s' = 0 \<and>
            outs @ rest = passed ops"
    using d r(1) by blast
qed

text \<open>
  Two sessions are added, one is selected, a third is added, and the pool is drained: the
  sessions come out in the order in which they went in.
\<close>

theorem Select_offline_FIFO_witness:
  "run [OpAdd [mk_session 1 (Fin 0) [1], mk_session 2 (Fin 0) [2]],
        OpSelect \<lparr>Stakes = (\<lambda>addrs. Inr []), Int63n = (\<lambda>n. 0)\<rparr>,
        OpAdd [mk_session 3 (Fin 0) [3]]]
       (NewMinLSSelector False (Fin 50))
     = Inr ([mk_session 1 (Fin 0) [1]],
            \<lparr>unknownSessions = [mk_session 2 (Fin 0) [2], mk_session 3 (Fin 0) [3]],
             knownSessions = [], stakeRdr = False, minLS = Fin 50\<rparr>)
   \<and> (\<exists>rest s'. drain [\<lparr>Stakes = (\<lambda>addrs. Inr []), Int63n = (\<lambda>n. 0)\<rparr>,
                        \<lparr>Stakes = (\<lambda>addrs. Inr []), Int63n = (\<lambda>n. 0)\<rparr>]
          \<lparr>unknownSessions = [mk_session 2 (Fin 0) [2], mk_session 3 (Fin 0) [3]],
           knownSessions = [], stakeRdr = False, minLS = Fin 50\<rparr> = Inr (rest, s')
        \<and> MinLSSelector_Size s' = 0
        \<and> [mk_session 1 (Fin 0) [1]] @ rest
            = [mk_session 1 (Fin 0) [1], mk_session 2 (Fin 0) [2], mk_session 3 (Fin 0) [3]])"
proof -
  let ?e = "\<lparr>Stakes = (\<lambda>addrs. Inr []), Int63n = (\<lambda>n. 0)\<rparr>"
  let ?ops = "[OpAdd [mk_session 1 (Fin 0) [1], mk_session 2 (Fin 0) [2]], OpSelect ?e,
        OpAdd [mk_session 3 (Fin 0) [3]]]"
  let ?s = "\<lparr>unknownSessions = [mk_session 2 (Fin 0) [2], mk_session 3 (Fin 0) [3]],
             knownSessions = [], stakeRdr = False, minLS = Fin 50\<rparr>"
  have h1: "list_all is_add_or_select ?ops" by simp
  have h2: "run ?ops (NewMinLSSelector False (Fin 50)) = Inr ([mk_session 1 (Fin 0) [1]], ?s)"
    by (simp add: eval_heap MinLSSelector_Add_def selectUnknownSession_def)
  have h3: "length (unknownSessions ?s) \<le> length [?e, ?e]" by simp
  show ?thesis using h2 Select_offline_FIFO[OF h1 h2 h3] by simp
qed

text \<open>
  Claim C8. Whenever \<^verbatim>\<open>Select\<close> draws from the known heap it returns a session whose score
  is minimal among the sessions in the heap, so that a session scored by \<^verbatim>\<open>Complete\<close> is
  returned no later than a session completed after it with a strictly greater score.
  The comment of \<^verbatim>\<open>Peek\<close> (the minimum is at index 0 as long as the heap is modified by
  \<^verbatim>\<open>heap.Push\<close> and \<^verbatim>\<open>heap.Pop\<close>) and that of \<^verbatim>\<open>Select\<close> (it returns the session with the
  lowest latency score) say the same, and the code does not keep it: \<^verbatim>\<open>Less\<close> is \<^verbatim>\<open><\<close> on
  \<^verbatim>\<open>float64\<close>, a session completed with a NaN score never compares less than its parent
  nor greater than its child, and the sessions below it are cut off from the root. After
  completions scored 0, NaN, 9, 1, 5, in this order, and with the threshold 10 that sends
  both calls to the heap, the second \<^verbatim>\<open>Select\<close> returns the session scored 5 while the
  session scored 1, completed before it, stays in the heap.
\<close>

theorem Select_heap_minimum_fails_after_NaN:
  "run [OpComplete (mk_session 0 (Fin 0) []), OpComplete (mk_session 1 NaN []),
        OpComplete (mk_session 2 (Fin 9) []), OpComplete (mk_session 3 (Fin 1) []),
        OpComplete (mk_session 4 (Fin 5) []),
        OpSelect \<lparr>Stakes = (\<lambda>addrs. Inr []), Int63n = (\<lambda>n. 0)\<rparr>,
        OpSelect \<lparr>Stakes = (\<lambda>addrs. Inr []), Int63n = (\<lambda>n. 0)\<rparr>]
       (NewMinLSSelector False (Fin 10))
   = Inr ([mk_session 0 (Fin 0) [], mk_session 4 (Fin 5) []],
          \<lparr>unknownSessions = [],
           knownSessions = [mk_session 3 (Fin 1) [], mk_session 1 NaN [], mk_session 2 (Fin 9) []],
           stakeRdr = False, minLS = Fin 10\<rparr>)
   \<and> f64_lt (LatencyScore (mk_session 3 (Fin 1) [])) (LatencyScore (mk_session 4 (Fin 5) []))"
  by (simp add: eval_heap)

section \<open>Claims on the LIFOSelector\<close>

text \<open>
  Claim C5, amended. Starting from an empty LIFO selector, after \<^verbatim>\<open>Add([A, B])\<close> the call
  \<^verbatim>\<open>Select()\<close> returns \<open>B\<close> and leaves \<open>[A]\<close>; after \<^verbatim>\<open>Complete(C)\<close> on that state the next
  \<^verbatim>\<open>Select()\<close> returns \<open>C\<close>.
\<close>

theorem LIFOSelector_warm_reuse:
  "LIFOSelector_Select (LIFOSelector_Add [A, B] []) = Inr (B, [A]) \<and>
   LIFOSelector_Select (LIFOSelector_Complete C [A]) = Inr (C, [A])"
  by (simp add: LIFOSelector_Select_def LIFOSelector_Add_def LIFOSelector_Complete_def Let_def)

text \<open>
  Claim C5 says that after \<^verbatim>\<open>Add([A, B])\<close> on an empty LIFO selector \<^verbatim>\<open>Select()\<close> returns
  \<open>A\<close>. \<^verbatim>\<open>Add\<close> puts the block in front and \<^verbatim>\<open>Select\<close> takes the back: with two different
  sessions the call returns the second one.
\<close>

theorem LIFOSelector_Add_Select_returns_A_counterexample:
  "LIFOSelector_Select (LIFOSelector_Add [mk_session 1 (Fin 0) [], mk_session 2 (Fin 0) []] [])
     = Inr (mk_session 2 (Fin 0) [], [mk_session 1 (Fin 0) []])
   \<and> mk_session 2 (Fin 0) [] \<noteq> mk_session 1 (Fin 0) []"
  by (simp add: LIFOSelector_Select_def LIFOSelector_Add_def mk_session_def Let_def)

text \<open>
  Claim C9. On a LIFO selector with \<^verbatim>\<open>Size() > 0\<close>, \<^verbatim>\<open>Select\<close> does not panic: it returns
  the element at the back of the sequence, what remains is the sequence without that last
  element (so every other element keeps its place), and \<^verbatim>\<open>Size()\<close> has gone down by one.
\<close>

theorem LIFOSelector_Select_back:
  assumes "LIFOSelector_Size s > 0"
  shows "\<exists>x s'. LIFOSelector_Select s = Inr (x, s') \<and> s = s' @ [x]
           \<and> LIFOSelector_Size s' + 1 = LIFOSelector_Size s"
proof -
  from assms have ne: "s \<noteq> []" by (auto simp: LIFOSelector_Size_def)
  then have "s = butlast s @ [last s]" by simp
  moreover have "LIFOSelector_Select s = Inr (last s, butlast s)"
    using ne by (simp add: LIFOSelector_Select_def Let_def last_conv_nth butlast_conv_take)
  moreover have "LIFOSelector_Size (butlast s) + 1 = LIFOSelector_Size s"
    using ne by (simp add: LIFOSelector_Size_def)
  ultimately show ?thesis by blast
qed

text \<open>The statement at a selector holding two sessions.\<close>

theorem LIFOSelector_Select_back_witness:
  "LIFOSelector_Size [mk_session 1 (Fin 0) [], mk_session 2 (Fin 0) []] > 0 \<and>
   (\<exists>x s'. LIFOSelector_Select [mk_session 1 (Fin 0) [], mk_session 2 (Fin 0) []] = Inr (x, s')
      \<and> [mk_session 1 (Fin 0) [], mk_session 2 (Fin 0) []] = s' @ [x]
      \<and> LIFOSelector_Size s' + 1 = LIFOSelector_Size [mk_session 1 (Fin 0) [], mk_session 2 (Fin 0) []])"
proof -
  have h: "LIFOSelector_Size [mk_session 1 (Fin 0) [], mk_session 2 (Fin 0) []] > 0"
    by (simp add: LIFOSelector_Size_def)
  show ?thesis using h LIFOSelector_Select_back[OF h] by simp
qed

text \<open>
  Claim C10. For every LIFO selector state \<open>s\<close>, the empty one included, and every session
  \<open>x\<close>: \<^verbatim>\<open>Complete(x)\<close> followed by \<^verbatim>\<open>Select()\<close> returns \<open>x\<close> and leaves the selector in
  state \<open>s\<close>.
\<close>

theorem LIFOSelector_Complete_Select:
  "LIFOSelector_Select (LIFOSelector_Complete x s) = Inr (x, s)"
  by (simp add: LIFOSelector_Select_def LIFOSelector_Complete_def Let_def)

end
